theory Spec2Isabelle
  imports Main "HOL-Library.Word"
begin

section \<open>The external scanner of the Parsley tree-sitter grammar\<close>

text \<open>
  A shallow embedding of \<^verbatim>\<open>contrib/tree-sitter-parsley/src/scanner.c\<close>: the token kinds,
  the one-byte scanner state with its serialisation, the lexer interface the scanner
  consumes, the raw-text scanning loop and the scan entry point. The static helper
  \<^verbatim>\<open>lookahead_matches_string\<close> is called nowhere and is left out.
\<close>

subsection \<open>Token kinds and scanner state\<close>

text \<open>\<^verbatim>\<open>enum TokenType\<close>, in the order of the grammar's externals array.\<close>

datatype TokenType = RAW_TEXT | RAW_TEXT_INTERPOLATION_START | ERROR_SENTINEL

text \<open>The numeric value of an enumerator, as stored in \<^verbatim>\<open>lexer->result_symbol\<close> (a 16-bit symbol).\<close>

fun symbol :: "TokenType \<Rightarrow> 16 word" where
  "symbol RAW_TEXT = 0"
| "symbol RAW_TEXT_INTERPOLATION_START = 1"
| "symbol ERROR_SENTINEL = 2"

text \<open>\<^verbatim>\<open>typedef struct { uint8_t raw_text_mode; } Scanner\<close>.\<close>

record Scanner =
  raw_text_mode :: "8 word"

text \<open>\<^verbatim>\<open>calloc(1, sizeof(Scanner))\<close>: a zeroed scanner.\<close>

definition tree_sitter_parsley_external_scanner_create :: Scanner where
  "tree_sitter_parsley_external_scanner_create = \<lparr>raw_text_mode = 0\<rparr>"

text \<open>
  The serialisation buffer is a list of bytes. \<^verbatim>\<open>serialize\<close> writes the mode into
  \<^verbatim>\<open>buffer[0]\<close> and returns the number of bytes written; the function returns the buffer
  after the write together with that count.
\<close>

definition tree_sitter_parsley_external_scanner_serialize ::
  "Scanner \<Rightarrow> 8 word list \<Rightarrow> 8 word list \<times> nat" where
  "tree_sitter_parsley_external_scanner_serialize payload buffer =
     (buffer[0 := raw_text_mode payload], 1)"

definition tree_sitter_parsley_external_scanner_deserialize ::
  "Scanner \<Rightarrow> 8 word list \<Rightarrow> nat \<Rightarrow> Scanner" where
  "tree_sitter_parsley_external_scanner_deserialize payload buffer length_arg =
     (if length_arg \<ge> 1 then payload\<lparr>raw_text_mode := buffer ! 0\<rparr>
      else payload\<lparr>raw_text_mode := 0\<rparr>)"

subsection \<open>The lexer interface\<close>

text \<open>
  Modelled from the spec: the \<^verbatim>\<open>TSLexer\<close> structure of \<^verbatim>\<open>tree_sitter/parser.h\<close>, which
  the scanner includes and whose implementation belongs to the host parser. The interface
  offers: peek the current code point without consuming it (\<open>lookahead\<close>), advance one
  code point (\<open>advance\<close>), mark the current position as the end boundary of the token
  (\<open>mark_end\<close>; it may be called several times and the last call wins) and query the end
  of input (\<open>eof\<close>).

  The cursor is the list of code points not yet passed (\<open>ahead\<close>) with the number of
  code points passed so far (\<open>position\<close>). Every call of \<open>mark_end\<close> is recorded,
  most recent first, in \<open>marked\<close>, so that the token end is the head of that list.
  Code points are \<^verbatim>\<open>int32_t\<close> values; the scanner only compares them with constants.
  At the end of input the lookahead is 0 and advancing does nothing; the scanner advances
  only where the lookahead is a character it has just compared, or where the end of input
  was excluded.
\<close>

type_synonym codepoint = int

record TSLexer =
  ahead :: "codepoint list"
  position :: nat
  marked :: "nat list"
  result_symbol :: "16 word"

definition lookahead :: "TSLexer \<Rightarrow> codepoint" where
  "lookahead l = (case ahead l of [] \<Rightarrow> 0 | c # _ \<Rightarrow> c)"

definition eof :: "TSLexer \<Rightarrow> bool" where
  "eof l = (ahead l = [])"

definition mark_end :: "TSLexer \<Rightarrow> TSLexer" where
  "mark_end l = l\<lparr>marked := position l # marked l\<rparr>"

text \<open>\<^verbatim>\<open>static void advance(TSLexer *lexer)\<close>; at the end of input there is nothing to pass.\<close>

definition advance :: "TSLexer \<Rightarrow> TSLexer" where
  "advance l = (case ahead l of [] \<Rightarrow> l
                | _ # cs \<Rightarrow> l\<lparr>ahead := cs, position := position l + 1\<rparr>)"

text \<open>The end of the token as the host reads it: the last marked position, if any.\<close>

definition token_end :: "TSLexer \<Rightarrow> nat option" where
  "token_end l = (case marked l of [] \<Rightarrow> None | m # _ \<Rightarrow> Some m)"

text \<open>
  The text of the token: the code points between the cursor \<open>l0\<close> at which the scan
  started and the token end of the lexer \<open>l\<close> the scan left, and the input that
  remains for the next call.
\<close>

definition token_text :: "TSLexer \<Rightarrow> TSLexer \<Rightarrow> codepoint list" where
  "token_text l0 l = (case token_end l of None \<Rightarrow> []
                      | Some e \<Rightarrow> take (e - position l0) (ahead l0))"

definition token_rest :: "TSLexer \<Rightarrow> TSLexer \<Rightarrow> codepoint list" where
  "token_rest l0 l = (case token_end l of None \<Rightarrow> ahead l0
                      | Some e \<Rightarrow> drop (e - position l0) (ahead l0))"

text \<open>A string literal as code points, and a lexer at the start of a given text.\<close>

abbreviation cp :: "char \<Rightarrow> codepoint" where
  "cp c \<equiv> of_char c"

definition cps :: "string \<Rightarrow> codepoint list" where
  "cps s = map of_char s"

definition lexer_at :: "codepoint list \<Rightarrow> TSLexer" where
  "lexer_at xs = \<lparr>ahead = xs, position = 0, marked = [], result_symbol = symbol ERROR_SENTINEL\<rparr>"

subsection \<open>Closing tags and the interpolation trigger, as texts\<close>

text \<open>
  The notions the properties are stated with, on plain lists of code points. Case is
  folded for the ASCII letters only. \<open>name_prefix ci name xs\<close> is the text after
  \<open>name\<close> when \<open>xs\<close> begins with it, compared with folded case when \<open>ci\<close> holds and
  exactly otherwise. A tag name ends at \<open>>\<close>, a space, a tab, a line feed or a carriage
  return.
\<close>

definition ascii_fold :: "codepoint \<Rightarrow> codepoint" where
  "ascii_fold c = (if cp CHR ''A'' \<le> c \<and> c \<le> cp CHR ''Z'' then c + (cp CHR ''a'' - cp CHR ''A'') else c)"

fun name_prefix :: "bool \<Rightarrow> codepoint list \<Rightarrow> codepoint list \<Rightarrow> codepoint list option" where
  "name_prefix ci [] xs = Some xs"
| "name_prefix ci (n # ns) [] = None"
| "name_prefix ci (n # ns) (x # xs) =
     (if (if ci then ascii_fold x = ascii_fold n else x = n) then name_prefix ci ns xs else None)"

definition tag_terminator :: "codepoint \<Rightarrow> bool" where
  "tag_terminator c =
     (c = cp CHR ''>'' \<or> c = cp CHR '' '' \<or> c = cp (CHR 0x09) \<or> c = cp (CHR 0x0A) \<or>
      c = cp (CHR 0x0D))"

definition terminated :: "codepoint list \<Rightarrow> bool" where
  "terminated xs = (case xs of [] \<Rightarrow> False | t # _ \<Rightarrow> tag_terminator t)"

definition name_then_end :: "bool \<Rightarrow> string \<Rightarrow> codepoint list \<Rightarrow> bool" where
  "name_then_end ci name xs =
     (case name_prefix ci (cps name) xs of None \<Rightarrow> False | Some r \<Rightarrow> terminated r)"

text \<open>
  The text after \<open></\<close> is a closing name: \<open>style\<close> or \<open>script\<close> in any letter case,
  or \<open>SQL\<close> exactly, followed by a character that ends a tag name.
\<close>

definition closing_name :: "codepoint list \<Rightarrow> bool" where
  "closing_name xs =
     (name_then_end True ''style'' xs \<or> name_then_end True ''script'' xs \<or>
      name_then_end False ''SQL'' xs)"

text \<open>
  A run-on name: \<open>SQ\<close> or \<open>SQL\<close> directly followed by \<open>tyle\<close> or \<open>cript\<close> in any
  letter case and a character that ends a tag name, as in \<open>SQtyle>\<close>.
\<close>

definition run_on :: "string \<Rightarrow> string \<Rightarrow> codepoint list \<Rightarrow> bool" where
  "run_on p name xs =
     (case name_prefix False (cps p) xs of None \<Rightarrow> False | Some r \<Rightarrow> name_then_end True name r)"

definition run_on_name :: "codepoint list \<Rightarrow> bool" where
  "run_on_name xs =
     (run_on ''SQ'' ''tyle'' xs \<or> run_on ''SQ'' ''cript'' xs \<or>
      run_on ''SQL'' ''tyle'' xs \<or> run_on ''SQL'' ''cript'' xs)"

text \<open>
  Texts that begin with \<open></\<close> and such a name, and the two-character interpolation
  trigger, an at sign and an opening brace.
\<close>

definition after_slash :: "(codepoint list \<Rightarrow> bool) \<Rightarrow> codepoint list \<Rightarrow> bool" where
  "after_slash P xs =
     (case xs of a # b # ys \<Rightarrow> a = cp CHR ''<'' \<and> b = cp CHR ''/'' \<and> P ys | _ \<Rightarrow> False)"

definition closing_tag :: "codepoint list \<Rightarrow> bool" where
  "closing_tag xs = after_slash closing_name xs"

definition run_on_tag :: "codepoint list \<Rightarrow> bool" where
  "run_on_tag xs = after_slash run_on_name xs"

definition trigger :: "codepoint list" where
  "trigger = [cp CHR ''@'', cp CHR ''{'']"

definition interpolation_trigger :: "codepoint list \<Rightarrow> bool" where
  "interpolation_trigger xs =
     (case xs of a # b # _ \<Rightarrow> a = cp CHR ''@'' \<and> b = cp CHR ''{'' | _ \<Rightarrow> False)"

text \<open>
  \<open>ordinary content follow\<close>: no trigger, no closing tag and no run-on tag begins at
  any position of \<open>content\<close>, read in front of the text \<open>follow\<close>.
\<close>

fun ordinary :: "codepoint list \<Rightarrow> codepoint list \<Rightarrow> bool" where
  "ordinary [] follow = True"
| "ordinary (c # cs) follow =
     (\<not> interpolation_trigger (c # cs @ follow) \<and> \<not> closing_tag (c # cs @ follow) \<and>
      \<not> run_on_tag (c # cs @ follow) \<and> ordinary cs follow)"

text \<open>
  \<open>folds_to s name\<close>: the name is \<open>s\<close> in some letter case. The recognised names are
  \<open>style\<close> and \<open>script\<close> in any letter case, and \<open>SQL\<close> in upper case only.
\<close>

definition folds_to :: "string \<Rightarrow> codepoint list \<Rightarrow> bool" where
  "folds_to s name = (name_prefix True (cps s) name = Some [])"

definition recognised_name :: "codepoint list \<Rightarrow> bool" where
  "recognised_name name = (folds_to ''style'' name \<or> folds_to ''script'' name \<or> name = cps ''SQL'')"

text \<open>
  \<open>tag_free content follow\<close>: no trigger and no closing tag begins at any position of
  \<open>content\<close>, read in front of the text \<open>follow\<close>.
\<close>

fun tag_free :: "codepoint list \<Rightarrow> codepoint list \<Rightarrow> bool" where
  "tag_free [] follow = True"
| "tag_free (c # cs) follow =
     (\<not> interpolation_trigger (c # cs @ follow) \<and> \<not> closing_tag (c # cs @ follow) \<and>
      tag_free cs follow)"

text \<open>
  \<open>passes l k\<close> is the lexer \<open>l\<close> after \<open>k\<close> code points; \<open>skipped l l'\<close> holds when
  \<open>l'\<close> is \<open>l\<close> after some ASCII letters, with nothing else changed.
\<close>

definition ascii_letter :: "codepoint \<Rightarrow> bool" where
  "ascii_letter c = ((cp CHR ''A'' \<le> c \<and> c \<le> cp CHR ''Z'') \<or> (cp CHR ''a'' \<le> c \<and> c \<le> cp CHR ''z''))"

definition passes :: "TSLexer \<Rightarrow> nat \<Rightarrow> TSLexer" where
  "passes l k = l\<lparr>ahead := drop k (ahead l), position := position l + k\<rparr>"

definition skipped :: "TSLexer \<Rightarrow> TSLexer \<Rightarrow> bool" where
  "skipped l l' =
     (\<exists>k\<le>length (ahead l). l' = passes l k \<and> (\<forall>c\<in>set (take k (ahead l)). ascii_letter c))"

subsection \<open>Closing-tag lookahead\<close>

text \<open>
  The result of a block of the loop body: either the function returned (with its
  boolean result), or control fell through to the statement after the block.
\<close>

datatype flow = Returned bool TSLexer | Fell TSLexer

text \<open>The end-of-tag-name test that follows each complete name.\<close>

definition tag_name_end :: "TSLexer \<Rightarrow> bool" where
  "tag_name_end l =
     (lookahead l = cp CHR ''>'' \<or> lookahead l = cp CHR '' '' \<or>
      lookahead l = cp (CHR 0x09) \<or> lookahead l = cp (CHR 0x0A) \<or>
      lookahead l = cp (CHR 0x0D))"

text \<open>What every "found" site does: return the accumulated content, or decline.\<close>

definition found_close_tag :: "bool \<Rightarrow> TSLexer \<Rightarrow> flow" where
  "found_close_tag has_content l =
     (if has_content then Returned True (l\<lparr>result_symbol := symbol RAW_TEXT\<rparr>)
      else Returned False l)"

text \<open>Lines 165--183: after the upper-case \<open>S\<close>, the rest of \<open>SQL\<close>.\<close>

definition sql_rest :: "bool \<Rightarrow> TSLexer \<Rightarrow> flow" where
  "sql_rest has_content l =
     (if lookahead l = cp CHR ''Q'' then
        let l = advance l in
        if lookahead l = cp CHR ''L'' then
          let l = advance l in
          if tag_name_end l then found_close_tag has_content l else Fell l
        else Fell l
      else Fell l)"

text \<open>
  Lines 186--235, and again lines 241--294 with the same text: after the first letter,
  the rest of \<open>style\<close> or of \<open>script\<close>, each letter in either case.
\<close>

definition style_or_script_rest :: "bool \<Rightarrow> TSLexer \<Rightarrow> flow" where
  "style_or_script_rest has_content l =
     (if lookahead l = cp CHR ''t'' \<or> lookahead l = cp CHR ''T'' then
        let l = advance l in
        if lookahead l = cp CHR ''y'' \<or> lookahead l = cp CHR ''Y'' then
          let l = advance l in
          if lookahead l = cp CHR ''l'' \<or> lookahead l = cp CHR ''L'' then
            let l = advance l in
            if lookahead l = cp CHR ''e'' \<or> lookahead l = cp CHR ''E'' then
              let l = advance l in
              if tag_name_end l then found_close_tag has_content l else Fell l
            else Fell l
          else Fell l
        else Fell l
      else if lookahead l = cp CHR ''c'' \<or> lookahead l = cp CHR ''C'' then
        let l = advance l in
        if lookahead l = cp CHR ''r'' \<or> lookahead l = cp CHR ''R'' then
          let l = advance l in
          if lookahead l = cp CHR ''i'' \<or> lookahead l = cp CHR ''I'' then
            let l = advance l in
            if lookahead l = cp CHR ''p'' \<or> lookahead l = cp CHR ''P'' then
              let l = advance l in
              if lookahead l = cp CHR ''t'' \<or> lookahead l = cp CHR ''T'' then
                let l = advance l in
                if tag_name_end l then found_close_tag has_content l else Fell l
              else Fell l
            else Fell l
          else Fell l
        else Fell l
      else Fell l)"

text \<open>
  Lines 163--295: the lookahead after \<open></\<close>. After an upper-case \<open>S\<close> the \<open>SQL\<close>
  block runs first and, when it does not return, the \<open>style\<close>/\<open>script\<close> block runs
  from wherever the \<open>SQL\<close> block left the cursor.
\<close>

definition close_tag_name :: "bool \<Rightarrow> TSLexer \<Rightarrow> flow" where
  "close_tag_name has_content l =
     (if lookahead l = cp CHR ''S'' then
        let l = advance l in
        (case sql_rest has_content l of
           Returned b l' \<Rightarrow> Returned b l'
         | Fell l' \<Rightarrow> style_or_script_rest has_content l')
      else if lookahead l = cp CHR ''s'' then
        let l = advance l in
        style_or_script_rest has_content l
      else Fell l)"

lemma advance_length: "length (ahead l) \<le> n \<Longrightarrow> length (ahead (advance l)) \<le> n"
  by (cases "ahead l") (simp_all add: advance_def)

lemma advance_length_less:
  "ahead l \<noteq> [] \<Longrightarrow> length (ahead l) \<le> n \<Longrightarrow> length (ahead (advance l)) < n"
  by (cases "ahead l") (simp_all add: advance_def)

lemma mark_end_ahead [simp]: "ahead (mark_end l) = ahead l"
  by (simp add: mark_end_def)

lemma sql_rest_length:
  "sql_rest hc l = Fell l' \<Longrightarrow> length (ahead l') \<le> length (ahead l)"
  by (auto simp: sql_rest_def found_close_tag_def Let_def split: if_splits
      intro!: advance_length)

lemma style_or_script_rest_length:
  "style_or_script_rest hc l = Fell l' \<Longrightarrow> length (ahead l') \<le> length (ahead l)"
  by (auto simp: style_or_script_rest_def found_close_tag_def Let_def split: if_splits
      intro!: advance_length)

lemma close_tag_name_length:
  "close_tag_name hc l = Fell l' \<Longrightarrow> length (ahead l') \<le> length (ahead l)"
proof (cases "lookahead l = cp CHR ''S''")
  case True
  assume f: "close_tag_name hc l = Fell l'"
  show ?thesis
  proof (cases "sql_rest hc (advance l)")
    case (Returned b l2)
    with f True show ?thesis by (simp add: close_tag_name_def)
  next
    case (Fell l2)
    with f True have "style_or_script_rest hc l2 = Fell l'"
      by (simp add: close_tag_name_def)
    then have "length (ahead l') \<le> length (ahead l2)"
      by (rule style_or_script_rest_length)
    also from Fell have "\<dots> \<le> length (ahead (advance l))"
      by (rule sql_rest_length)
    also have "\<dots> \<le> length (ahead l)"
      by (simp add: advance_length)
    finally show ?thesis .
  qed
next
  case False
  assume f: "close_tag_name hc l = Fell l'"
  show ?thesis
  proof (cases "lookahead l = cp CHR ''s''")
    case True
    with f False have "style_or_script_rest hc (advance l) = Fell l'"
      by (simp add: close_tag_name_def)
    then have "length (ahead l') \<le> length (ahead (advance l))"
      by (rule style_or_script_rest_length)
    also have "\<dots> \<le> length (ahead l)"
      by (simp add: advance_length)
    finally show ?thesis .
  next
    case False
    with f \<open>lookahead l \<noteq> cp CHR ''S''\<close> show ?thesis
      by (simp add: close_tag_name_def)
  qed
qed

subsection \<open>The raw-text scanning loop\<close>

text \<open>
  \<^verbatim>\<open>scan_raw_text\<close>, lines 116--322: the \<^verbatim>\<open>while (true)\<close> loop with the local
  \<^verbatim>\<open>has_content\<close>, and the return after the loop, which the \<^verbatim>\<open>break\<close> at the end of
  input reaches. Each \<^verbatim>\<open>continue\<close> is a recursive call.
\<close>

function scan_raw_text_loop :: "bool \<Rightarrow> TSLexer \<Rightarrow> bool \<times> TSLexer" where
  "scan_raw_text_loop has_content l =
     (if eof l then
        (if has_content then (True, l\<lparr>result_symbol := symbol RAW_TEXT\<rparr>) else (False, l))
      else if lookahead l = cp CHR ''@'' then
        (let l1 = advance (mark_end l) in
         if lookahead l1 = cp CHR ''{'' then
           (if has_content then (True, l1\<lparr>result_symbol := symbol RAW_TEXT\<rparr>)
            else (let l2 = mark_end (advance l1) in
                  (True, l2\<lparr>result_symbol := symbol RAW_TEXT_INTERPOLATION_START\<rparr>)))
         else scan_raw_text_loop True (mark_end l1))
      else if lookahead l = cp CHR ''<'' then
        (let l1 = advance (mark_end l) in
         if lookahead l1 = cp CHR ''/'' then
           (case close_tag_name has_content (advance l1) of
              Returned b l2 \<Rightarrow> (b, l2)
            | Fell l2 \<Rightarrow> scan_raw_text_loop True (mark_end l2))
         else scan_raw_text_loop True (mark_end l1))
      else scan_raw_text_loop True (mark_end (advance l)))"
  by pat_completeness auto
termination
proof (relation "measure (\<lambda>(hc, l). length (ahead l))", goal_cases)
  case 1
  show ?case by simp
next
  case (2 hc l l1)
  then show ?case by (simp add: eof_def advance_length_less)
next
  case (3 hc l l1 l2)
  then have "length (ahead l2) \<le> length (ahead (advance l1))"
    by (simp add: close_tag_name_length)
  also have "\<dots> \<le> length (ahead l1)"
    by (simp add: advance_length)
  also from 3 have "\<dots> < length (ahead l)"
    by (simp add: eof_def advance_length_less)
  finally show ?case by simp
next
  case (4 hc l l1)
  then show ?case by (simp add: eof_def advance_length_less)
next
  case (5 hc l)
  then show ?case by (simp add: eof_def advance_length_less)
qed

declare scan_raw_text_loop.simps [simp del]

text \<open>
  \<^verbatim>\<open>scan_raw_text(scanner, lexer, valid_symbols)\<close>: the loop started with no content. The
  function reads neither the scanner nor the valid symbols and writes only the lexer;
  the result is the returned boolean, the scanner and the lexer after the call.
\<close>

definition scan_raw_text ::
  "Scanner \<Rightarrow> TSLexer \<Rightarrow> (TokenType \<Rightarrow> bool) \<Rightarrow> bool \<times> Scanner \<times> TSLexer" where
  "scan_raw_text scanner lexer valid_symbols =
     (case scan_raw_text_loop False lexer of (r, lexer') \<Rightarrow> (r, scanner, lexer'))"

text \<open>The entry point the host calls.\<close>

definition tree_sitter_parsley_external_scanner_scan ::
  "Scanner \<Rightarrow> TSLexer \<Rightarrow> (TokenType \<Rightarrow> bool) \<Rightarrow> bool \<times> Scanner \<times> TSLexer" where
  "tree_sitter_parsley_external_scanner_scan payload lexer valid_symbols =
     (if valid_symbols RAW_TEXT \<or> valid_symbols RAW_TEXT_INTERPOLATION_START
      then scan_raw_text payload lexer valid_symbols
      else (False, payload, lexer))"

text \<open>
  Two sets of valid symbols for concrete scans: inside a raw-text tag the grammar accepts
  both raw-text tokens, elsewhere neither.
\<close>

definition in_raw_text :: "TokenType \<Rightarrow> bool" where
  "in_raw_text t = (t = RAW_TEXT \<or> t = RAW_TEXT_INTERPOLATION_START)"

definition outside_raw_text :: "TokenType \<Rightarrow> bool" where
  "outside_raw_text t = False"

text \<open>
  One scan of a text inside a raw-text tag, from a fresh lexer: whether a token was
  reported, the symbol left in the lexer, the text of the token and the input after it.
\<close>

definition scan_text :: "codepoint list \<Rightarrow> bool \<times> 16 word \<times> codepoint list \<times> codepoint list" where
  "scan_text xs =
     (case tree_sitter_parsley_external_scanner_scan tree_sitter_parsley_external_scanner_create
             (lexer_at xs) in_raw_text of
        (r, s, l') \<Rightarrow> (r, result_symbol l', token_text (lexer_at xs) l', token_rest (lexer_at xs) l'))"

subsection \<open>The closing-tag lookahead, characterised\<close>

text \<open>
  The lookahead blocks test one character after the other; the notions on texts unroll
  into the same tests on the lexer. A block that falls through has passed ASCII letters
  only. The lookahead returns exactly on the closing names and the run-on names.
\<close>

lemma ascii_fold_lower:
  "97 \<le> n \<Longrightarrow> n \<le> 122 \<Longrightarrow> ascii_fold c = ascii_fold n \<longleftrightarrow> c = n \<or> c = n - 32"
  by (auto simp: ascii_fold_def)

lemma name_prefix_ci:
  "97 \<le> n \<Longrightarrow> n \<le> 122 \<Longrightarrow>
   name_prefix True (n # ns) (ahead l) =
     (if lookahead l = n \<or> lookahead l = n - 32 then name_prefix True ns (ahead (advance l))
      else None)"
  by (cases "ahead l") (auto simp: lookahead_def advance_def ascii_fold_lower)

lemma name_prefix_cs:
  "n \<noteq> 0 \<Longrightarrow>
   name_prefix False (n # ns) (ahead l) =
     (if lookahead l = n then name_prefix False ns (ahead (advance l)) else None)"
  by (cases "ahead l") (auto simp: lookahead_def advance_def)

lemma terminated_ahead: "terminated (ahead l) = tag_name_end l"
  by (cases "ahead l") (auto simp: terminated_def tag_name_end_def tag_terminator_def lookahead_def)

lemma skipped_refl: "skipped l l"
  unfolding skipped_def by (rule exI [of _ 0]) (simp add: passes_def)

lemma skipped_trans: 
  assumes "skipped l l1" "skipped l1 l2" shows "skipped l l2"
proof -
  from assms obtain j k where j: "j \<le> length (ahead l)" "l1 = passes l j"
      "\<forall>c\<in>set (take j (ahead l)). ascii_letter c"
    and k: "k \<le> length (ahead l1)" "l2 = passes l1 k" "\<forall>c\<in>set (take k (ahead l1)). ascii_letter c"
    unfolding skipped_def by blast
  have t: "take (j + k) (ahead l) = take j (ahead l) @ take k (drop j (ahead l))"
    by (simp add: take_add)
  show ?thesis unfolding skipped_def
  proof (intro exI [of _ "j + k"] conjI)
    show "j + k \<le> length (ahead l)" using j(1) k(1) j(2) by (simp add: passes_def)
    show "l2 = passes l (j + k)" using j(2) k(2) by (simp add: passes_def add.commute)
    show "\<forall>c\<in>set (take (j + k) (ahead l)). ascii_letter c"
      using j(3) k(3) j(2) unfolding t by (auto simp: passes_def)
  qed
qed

lemma skipped_advance: "ascii_letter (lookahead l) \<Longrightarrow> skipped l (advance l)"
proof -
  assume a: "ascii_letter (lookahead l)"
  then obtain c cs where l: "ahead l = c # cs"
    by (cases "ahead l") (auto simp: lookahead_def ascii_letter_def)
  with a have c: "ascii_letter c" by (simp add: lookahead_def)
  show ?thesis unfolding skipped_def
    by (rule exI [of _ 1]) (simp add: l c passes_def advance_def)
qed

lemma skipped_advance_right:
  "skipped l l1 \<Longrightarrow> ascii_letter (lookahead l1) \<Longrightarrow> skipped l (advance l1)"
  by (blast intro: skipped_trans skipped_advance)

lemma skipped_fields:
  "skipped l l' \<Longrightarrow> marked l' = marked l \<and> result_symbol l' = result_symbol l \<and> position l \<le> position l'"
  by (auto simp: skipped_def passes_def)

lemma ascii_letter_consts [simp]:
  "ascii_letter 83" "ascii_letter 115" "ascii_letter 81" "ascii_letter 76" "ascii_letter 108"
  "ascii_letter 116" "ascii_letter 84" "ascii_letter 121" "ascii_letter 89" 
  "ascii_letter 101" "ascii_letter 69" "ascii_letter 99" "ascii_letter 67" "ascii_letter 114" "ascii_letter 82"
  "ascii_letter 105" "ascii_letter 73" "ascii_letter 112" "ascii_letter 80"
  by (simp_all add: ascii_letter_def)

lemma sql_rest_fell: "sql_rest hc l = Fell l' \<Longrightarrow> skipped l l'"
  apply (simp add: sql_rest_def Let_def found_close_tag_def split: if_splits)
  apply (hypsubst_thin | (intro skipped_advance_right skipped_refl; simp))+
  done

lemma style_or_script_rest_fell: "style_or_script_rest hc l = Fell l' \<Longrightarrow> skipped l l'"
  apply (simp add: style_or_script_rest_def Let_def found_close_tag_def split: if_splits)
  apply (hypsubst_thin | (intro skipped_advance_right skipped_refl; (elim disjE)?; simp))+
  done

lemma tyle_unroll: 
  "name_then_end True ''tyle'' (ahead l) \<longleftrightarrow>
    (lookahead l = 116 \<or> lookahead l = 84) \<and> (lookahead (advance l) = 121 \<or> lookahead (advance l) = 89) \<and>
    (lookahead (advance (advance l)) = 108 \<or> lookahead (advance (advance l)) = 76) \<and>
    (lookahead (advance (advance (advance l))) = 101 \<or> lookahead (advance (advance (advance l))) = 69) \<and>
    tag_name_end (advance (advance (advance (advance l))))"
  by (simp add: name_then_end_def cps_def name_prefix_ci terminated_ahead)

lemma cript_unroll: 
  "name_then_end True ''cript'' (ahead l) \<longleftrightarrow>
    (lookahead l = 99 \<or> lookahead l = 67) \<and> (lookahead (advance l) = 114 \<or> lookahead (advance l) = 82) \<and>
    (lookahead (advance (advance l)) = 105 \<or> lookahead (advance (advance l)) = 73) \<and>
    (lookahead (advance (advance (advance l))) = 112 \<or> lookahead (advance (advance (advance l))) = 80) \<and>
    (lookahead (advance (advance (advance (advance l)))) = 116 \<or> lookahead (advance (advance (advance (advance l)))) = 84) \<and>
    tag_name_end (advance (advance (advance (advance (advance l)))))"
  by (simp add: name_then_end_def cps_def name_prefix_ci terminated_ahead)

lemma style_or_script_rest_returned:
  "style_or_script_rest hc l = Returned b l' \<Longrightarrow>
   name_then_end True ''tyle'' (ahead l) \<or> name_then_end True ''cript'' (ahead l)"
  unfolding tyle_unroll cript_unroll
  by (simp add: style_or_script_rest_def Let_def split: if_splits)

lemma style_or_script_rest_tyle:
  "name_then_end True ''tyle'' (ahead l) \<Longrightarrow>
   style_or_script_rest hc l = found_close_tag hc (advance (advance (advance (advance l)))) \<and>
   skipped l (advance (advance (advance (advance l)))) \<and> tag_name_end (advance (advance (advance (advance l))))"
  unfolding tyle_unroll
  apply (intro conjI)
    apply (simp add: style_or_script_rest_def Let_def)
   apply (intro skipped_advance_right skipped_refl; (elim disjE conjE)?; simp)
  apply simp
  done


lemma style_or_script_rest_cript:
  "name_then_end True ''cript'' (ahead l) \<Longrightarrow>
   style_or_script_rest hc l = found_close_tag hc (advance (advance (advance (advance (advance l))))) \<and>
   skipped l (advance (advance (advance (advance (advance l))))) \<and>
   tag_name_end (advance (advance (advance (advance (advance l)))))"
  unfolding cript_unroll
  apply (intro conjI)
    apply (elim disjE conjE; simp add: style_or_script_rest_def Let_def)
   apply (intro skipped_advance_right skipped_refl; (elim disjE conjE)?; simp)
  apply simp
  done

lemma style_or_script_rest_found:
  assumes "name_then_end True ''tyle'' (ahead l) \<or> name_then_end True ''cript'' (ahead l)"
  shows "\<exists>l0. style_or_script_rest hc l = found_close_tag hc l0 \<and> skipped l l0 \<and> tag_name_end l0"
  using assms style_or_script_rest_tyle [of l hc] style_or_script_rest_cript [of l hc] by blast

lemma QL_unroll:
  "name_then_end False ''QL'' (ahead l) \<longleftrightarrow>
     lookahead l = 81 \<and> lookahead (advance l) = 76 \<and> tag_name_end (advance (advance l))"
  by (simp add: name_then_end_def cps_def name_prefix_cs terminated_ahead)

lemma sql_rest_returned:
  "sql_rest hc l = Returned b l' \<Longrightarrow> name_then_end False ''QL'' (ahead l)"
  unfolding QL_unroll by (simp add: sql_rest_def Let_def split: if_splits)

lemma sql_rest_found:
  "name_then_end False ''QL'' (ahead l) \<Longrightarrow>
   sql_rest hc l = found_close_tag hc (advance (advance l)) \<and> skipped l (advance (advance l)) \<and>
   tag_name_end (advance (advance l))"
  unfolding QL_unroll
  apply (intro conjI)
    apply (simp add: sql_rest_def Let_def)
   apply (intro skipped_advance_right skipped_refl; simp)
  apply simp
  done

lemma sql_rest_fell_at:
  "sql_rest hc l = Fell l' \<Longrightarrow>
   l' = (if lookahead l = 81 then (if lookahead (advance l) = 76 then advance (advance l) else advance l)
         else l)"
  by (simp add: sql_rest_def Let_def found_close_tag_def split: if_splits)

lemma found_close_tag_not_Fell [simp]: "found_close_tag hc l \<noteq> Fell l'"
  by (simp add: found_close_tag_def)

lemma style_unroll:
  "name_then_end True ''style'' (ahead l) \<longleftrightarrow>
     (lookahead l = 115 \<or> lookahead l = 83) \<and> name_then_end True ''tyle'' (ahead (advance l))"
  by (simp add: name_then_end_def cps_def name_prefix_ci)

lemma script_unroll:
  "name_then_end True ''script'' (ahead l) \<longleftrightarrow>
     (lookahead l = 115 \<or> lookahead l = 83) \<and> name_then_end True ''cript'' (ahead (advance l))"
  by (simp add: name_then_end_def cps_def name_prefix_ci)

lemma SQL_unroll:
  "name_then_end False ''SQL'' (ahead l) \<longleftrightarrow>
     lookahead l = 83 \<and> name_then_end False ''QL'' (ahead (advance l))"
  by (simp add: name_then_end_def cps_def name_prefix_cs)

lemma run_on_SQ_unroll:
  "run_on ''SQ'' name (ahead l) \<longleftrightarrow>
     lookahead l = 83 \<and> lookahead (advance l) = 81 \<and>
     name_then_end True name (ahead (advance (advance l)))"
  by (simp add: run_on_def cps_def name_prefix_cs)

lemma run_on_SQL_unroll:
  "run_on ''SQL'' name (ahead l) \<longleftrightarrow>
     lookahead l = 83 \<and> lookahead (advance l) = 81 \<and> lookahead (advance (advance l)) = 76 \<and>
     name_then_end True name (ahead (advance (advance (advance l))))"
  by (simp add: run_on_def cps_def name_prefix_cs)

lemma close_tag_name_S:
  "lookahead l = 83 \<Longrightarrow>
   close_tag_name hc l =
     (case sql_rest hc (advance l) of Returned b l' \<Rightarrow> Returned b l'
      | Fell l' \<Rightarrow> style_or_script_rest hc l')"
  by (simp add: close_tag_name_def)

lemma close_tag_name_s:
  "lookahead l = 115 \<Longrightarrow> close_tag_name hc l = style_or_script_rest hc (advance l)"
  by (simp add: close_tag_name_def)

lemma close_tag_name_other:
  "lookahead l \<noteq> 83 \<Longrightarrow> lookahead l \<noteq> 115 \<Longrightarrow> close_tag_name hc l = Fell l"
  by (simp add: close_tag_name_def)

lemma close_tag_name_returned:
  assumes r: "close_tag_name hc l = Returned b l'"
  shows "closing_name (ahead l) \<or> run_on_name (ahead l)"
proof -
  consider (S) "lookahead l = 83" | (s) "lookahead l = 115"
    | (other) "lookahead l \<noteq> 83" "lookahead l \<noteq> 115"
    by blast
  then show ?thesis
  proof cases
    case S
    show ?thesis
    proof (cases "sql_rest hc (advance l)")
      case (Returned b2 l2)
      then have "name_then_end False ''QL'' (ahead (advance l))"
        by (rule sql_rest_returned)
      with S show ?thesis by (simp add: closing_name_def SQL_unroll)
    next
      case (Fell l2)
      with r S have "style_or_script_rest hc l2 = Returned b l'"
        by (simp add: close_tag_name_S)
      then have t: "name_then_end True ''tyle'' (ahead l2) \<or> name_then_end True ''cript'' (ahead l2)"
        by (rule style_or_script_rest_returned)
      note at = sql_rest_fell_at [OF Fell]
      show ?thesis
      proof (cases "lookahead (advance l) = 81")
        case False
        with at have "l2 = advance l" by simp
        with t S show ?thesis by (auto simp: closing_name_def style_unroll script_unroll)
      next
        case True
        show ?thesis
        proof (cases "lookahead (advance (advance l)) = 76")
          case True
          with at \<open>lookahead (advance l) = 81\<close> have "l2 = advance (advance (advance l))" by simp
          with t S True \<open>lookahead (advance l) = 81\<close> show ?thesis
            by (auto simp: run_on_name_def run_on_SQL_unroll)
        next
          case False
          with at \<open>lookahead (advance l) = 81\<close> have "l2 = advance (advance l)" by simp
          with t S \<open>lookahead (advance l) = 81\<close> show ?thesis
            by (auto simp: run_on_name_def run_on_SQ_unroll)
        qed
      qed
    qed
  next
    case s
    with r have "style_or_script_rest hc (advance l) = Returned b l'"
      by (simp add: close_tag_name_s)
    then have "name_then_end True ''tyle'' (ahead (advance l)) \<or>
               name_then_end True ''cript'' (ahead (advance l))"
      by (rule style_or_script_rest_returned)
    with s show ?thesis by (auto simp: closing_name_def style_unroll script_unroll)
  next
    case other
    with r show ?thesis by (simp add: close_tag_name_other)
  qed
qed


lemma first_of_tail:
  "name_then_end True ''tyle'' (ahead l) \<or> name_then_end True ''cript'' (ahead l) \<Longrightarrow>
   lookahead l = 116 \<or> lookahead l = 84 \<or> lookahead l = 99 \<or> lookahead l = 67"
  unfolding tyle_unroll cript_unroll by blast

lemma sql_rest_not_Q: "lookahead l \<noteq> 81 \<Longrightarrow> sql_rest hc l = Fell l"
  by (simp add: sql_rest_def)

lemma sql_rest_Q_not_L:
  "lookahead l = 81 \<Longrightarrow> lookahead (advance l) \<noteq> 76 \<Longrightarrow> sql_rest hc l = Fell (advance l)"
  by (simp add: sql_rest_def)

lemma sql_rest_QL_no_end:
  "lookahead l = 81 \<Longrightarrow> lookahead (advance l) = 76 \<Longrightarrow> \<not> tag_name_end (advance (advance l)) \<Longrightarrow>
   sql_rest hc l = Fell (advance (advance l))"
  by (simp add: sql_rest_def)

lemma after_S_tail:
  assumes S: "lookahead l = 83 \<or> lookahead l = 115"
    and t: "name_then_end True ''tyle'' (ahead (advance l)) \<or>
            name_then_end True ''cript'' (ahead (advance l))"
  shows "\<exists>l0. close_tag_name hc l = found_close_tag hc l0 \<and> skipped l l0 \<and> tag_name_end l0"
proof -
  from style_or_script_rest_found [OF t, of hc] obtain l0 where
    l0: "style_or_script_rest hc (advance l) = found_close_tag hc l0" "skipped (advance l) l0"
      "tag_name_end l0"
    by blast
  from S have "skipped l (advance l)" by (auto intro!: skipped_advance)
  then have sk: "skipped l l0" using l0(2) by (rule skipped_trans)
  from first_of_tail [OF t] have "lookahead (advance l) \<noteq> 81" by auto
  then have "sql_rest hc (advance l) = Fell (advance l)" by (rule sql_rest_not_Q)
  with S l0(1) have "close_tag_name hc l = found_close_tag hc l0"
    by (auto simp: close_tag_name_S close_tag_name_s)
  with sk l0(3) show ?thesis by blast
qed

lemma after_SQ_tail:
  assumes S: "lookahead l = 83" and Q: "lookahead (advance l) = 81"
    and t: "name_then_end True ''tyle'' (ahead (advance (advance l))) \<or>
            name_then_end True ''cript'' (ahead (advance (advance l)))"
  shows "\<exists>l0. close_tag_name hc l = found_close_tag hc l0 \<and> skipped l l0 \<and> tag_name_end l0"
proof -
  from style_or_script_rest_found [OF t, of hc] obtain l0 where
    l0: "style_or_script_rest hc (advance (advance l)) = found_close_tag hc l0"
      "skipped (advance (advance l)) l0" "tag_name_end l0"
    by blast
  from S Q have "skipped l (advance (advance l))"
    by (intro skipped_advance_right skipped_refl) simp_all
  then have sk: "skipped l l0" using l0(2) by (rule skipped_trans)
  from first_of_tail [OF t] have "lookahead (advance (advance l)) \<noteq> 76" by auto
  with Q have "sql_rest hc (advance l) = Fell (advance (advance l))" by (rule sql_rest_Q_not_L)
  with S l0(1) have "close_tag_name hc l = found_close_tag hc l0"
    by (simp add: close_tag_name_S)
  with sk l0(3) show ?thesis by blast
qed

lemma after_SQL_tail:
  assumes S: "lookahead l = 83" and Q: "lookahead (advance l) = 81"
    and L: "lookahead (advance (advance l)) = 76"
    and t: "name_then_end True ''tyle'' (ahead (advance (advance (advance l)))) \<or>
            name_then_end True ''cript'' (ahead (advance (advance (advance l))))"
  shows "\<exists>l0. close_tag_name hc l = found_close_tag hc l0 \<and> skipped l l0 \<and> tag_name_end l0"
proof -
  from style_or_script_rest_found [OF t, of hc] obtain l0 where
    l0: "style_or_script_rest hc (advance (advance (advance l))) = found_close_tag hc l0"
      "skipped (advance (advance (advance l))) l0" "tag_name_end l0"
    by blast
  from S Q L have "skipped l (advance (advance (advance l)))"
    by (intro skipped_advance_right skipped_refl) simp_all
  then have sk: "skipped l l0" using l0(2) by (rule skipped_trans)
  from first_of_tail [OF t] have "\<not> tag_name_end (advance (advance (advance l)))"
    by (auto simp: tag_name_end_def)
  with Q L have "sql_rest hc (advance l) = Fell (advance (advance (advance l)))"
    by (rule sql_rest_QL_no_end)
  with S l0(1) have "close_tag_name hc l = found_close_tag hc l0"
    by (simp add: close_tag_name_S)
  with sk l0(3) show ?thesis by blast
qed

lemma after_S_QL:
  assumes S: "lookahead l = 83" and t: "name_then_end False ''QL'' (ahead (advance l))"
  shows "\<exists>l0. close_tag_name hc l = found_close_tag hc l0 \<and> skipped l l0 \<and> tag_name_end l0"
proof -
  from sql_rest_found [OF t, of hc] obtain l0 where
    l0: "sql_rest hc (advance l) = found_close_tag hc l0" "skipped (advance l) l0"
      "tag_name_end l0"
    by blast
  from S have "skipped l (advance l)" by (auto intro!: skipped_advance)
  then have sk: "skipped l l0" using l0(2) by (rule skipped_trans)
  from S l0(1) have "close_tag_name hc l = found_close_tag hc l0"
    by (simp add: close_tag_name_S found_close_tag_def)
  with sk l0(3) show ?thesis by blast
qed

lemma close_tag_name_found:
  assumes "closing_name (ahead l) \<or> run_on_name (ahead l)"
  shows "\<exists>l0. close_tag_name hc l = found_close_tag hc l0 \<and> skipped l l0 \<and> tag_name_end l0"
  using assms
  unfolding closing_name_def run_on_name_def style_unroll script_unroll SQL_unroll
    run_on_SQ_unroll run_on_SQL_unroll
  by (elim disjE conjE) (blast intro: after_S_tail after_SQ_tail after_SQL_tail after_S_QL)+

lemma close_tag_name_fell: "close_tag_name hc l = Fell l' \<Longrightarrow> skipped l l'"
proof -
  assume f: "close_tag_name hc l = Fell l'"
  consider (S) "lookahead l = 83" | (s) "lookahead l = 115"
    | (other) "lookahead l \<noteq> 83" "lookahead l \<noteq> 115"
    by blast
  then show ?thesis
  proof cases
    case S
    then have a: "skipped l (advance l)" by (simp add: skipped_advance)
    show ?thesis
    proof (cases "sql_rest hc (advance l)")
      case (Returned b l2)
      with f S show ?thesis by (simp add: close_tag_name_S)
    next
      case (Fell l2)
      with f S have "style_or_script_rest hc l2 = Fell l'"
        by (simp add: close_tag_name_S)
      then have "skipped l2 l'" by (rule style_or_script_rest_fell)
      with a sql_rest_fell [OF Fell] show ?thesis by (blast intro: skipped_trans)
    qed
  next
    case s
    then have a: "skipped l (advance l)" by (simp add: skipped_advance)
    from f s have "style_or_script_rest hc (advance l) = Fell l'"
      by (simp add: close_tag_name_s)
    then have "skipped (advance l) l'" by (rule style_or_script_rest_fell)
    with a show ?thesis by (blast intro: skipped_trans)
  next
    case other
    with f show ?thesis by (simp add: close_tag_name_other skipped_refl)
  qed
qed

lemma close_tag_name_cases:
  obtains (returned) l0 where "skipped l l0" "tag_name_end l0"
      "close_tag_name hc l = found_close_tag hc l0"
      "closing_name (ahead l) \<or> run_on_name (ahead l)"
    | (fell) l' where "skipped l l'" "close_tag_name hc l = Fell l'"
      "\<not> closing_name (ahead l)" "\<not> run_on_name (ahead l)"
proof (cases "closing_name (ahead l) \<or> run_on_name (ahead l)")
  case True
  from close_tag_name_found [OF True, of hc] returned True show ?thesis by blast
next
  case False
  show ?thesis
  proof (cases "close_tag_name hc l")
    case (Returned b l2)
    with close_tag_name_returned False show ?thesis by blast
  next
    case (Fell l2)
    with close_tag_name_fell [OF Fell] fell False show ?thesis by blast
  qed
qed

lemma ascii_letter_not_special: "ascii_letter c \<Longrightarrow> c \<noteq> 60 \<and> c \<noteq> 64 \<and> c \<noteq> 0"
  by (auto simp: ascii_letter_def)

lemma found_close_tag_eq:
  "found_close_tag hc l = Returned hc (if hc then l\<lparr>result_symbol := symbol RAW_TEXT\<rparr> else l)"
  by (simp add: found_close_tag_def)

lemma loop_eof:
  "ahead l = [] \<Longrightarrow>
   scan_raw_text_loop hc l = (hc, if hc then l\<lparr>result_symbol := symbol RAW_TEXT\<rparr> else l)"
  by (simp add: scan_raw_text_loop.simps [of hc l] eof_def)

lemma loop_trigger:
  "ahead l = 64 # 123 # rest \<Longrightarrow>
   scan_raw_text_loop hc l =
     (True, if hc then l\<lparr>ahead := 123 # rest, position := position l + 1,
                        marked := position l # marked l, result_symbol := symbol RAW_TEXT\<rparr>
            else l\<lparr>ahead := rest, position := position l + 2,
                   marked := (position l + 2) # position l # marked l,
                   result_symbol := symbol RAW_TEXT_INTERPOLATION_START\<rparr>)"
  by (simp add: scan_raw_text_loop.simps [of hc l] eof_def lookahead_def advance_def mark_end_def)

lemma loop_plain_step:
  assumes "ahead l = c # cs"
    and "c = 64 \<longrightarrow> (case cs of [] \<Rightarrow> True | d # _ \<Rightarrow> d \<noteq> 123)"
    and "c = 60 \<longrightarrow> (case cs of [] \<Rightarrow> True | d # _ \<Rightarrow> d \<noteq> 47)"
  shows "scan_raw_text_loop hc l =
           scan_raw_text_loop True (l\<lparr>ahead := cs, position := position l + 1,
              marked := (position l + 1) #
                (if c = 64 \<or> c = 60 then position l # marked l else marked l)\<rparr>)"
proof (cases cs)
  case Nil
  with assms show ?thesis
    by (simp add: scan_raw_text_loop.simps [of hc l] eof_def lookahead_def advance_def mark_end_def)
next
  case (Cons d ds)
  with assms show ?thesis
    by (simp add: scan_raw_text_loop.simps [of hc l] eof_def lookahead_def advance_def mark_end_def)
qed

lemma loop_slash:
  "ahead l = 60 # 47 # ys \<Longrightarrow>
   scan_raw_text_loop hc l =
     (case close_tag_name hc (advance (advance (mark_end l))) of
        Returned b l2 \<Rightarrow> (b, l2)
      | Fell l2 \<Rightarrow> scan_raw_text_loop True (mark_end l2))"
  by (simp add: scan_raw_text_loop.simps [of hc l] eof_def lookahead_def) 
     (simp add: lookahead_def advance_def mark_end_def)

lemma after_slash_lexer:
  "ahead l = 60 # 47 # ys \<Longrightarrow>
   advance (advance (mark_end l)) =
     l\<lparr>ahead := ys, position := position l + 2, marked := position l # marked l\<rparr>"
  by (simp add: advance_def mark_end_def)

text \<open>One iteration of the loop, by cases.\<close>

lemma loop_step:
  obtains
    (eof) "ahead l = []"
      "scan_raw_text_loop hc l = (hc, if hc then l\<lparr>result_symbol := symbol RAW_TEXT\<rparr> else l)"
  | (trigger) rest where "ahead l = 64 # 123 # rest"
  | (closed) ys l0 where "ahead l = 60 # 47 # ys" "closing_name ys \<or> run_on_name ys"
      "skipped (l\<lparr>ahead := ys, position := position l + 2, marked := position l # marked l\<rparr>) l0"
      "tag_name_end l0"
      "scan_raw_text_loop hc l = (hc, if hc then l0\<lparr>result_symbol := symbol RAW_TEXT\<rparr> else l0)"
  | (continue) k ms where "1 \<le> k" "k \<le> length (ahead l)"
      "\<forall>c\<in>set (take (k - 1) (tl (ahead l))). c \<noteq> 60 \<and> c \<noteq> 64"
      "ms = marked l \<or> ms = position l # marked l"
      "\<not> interpolation_trigger (ahead l)" "\<not> closing_tag (ahead l)" "\<not> run_on_tag (ahead l)"
      "scan_raw_text_loop hc l =
         scan_raw_text_loop True (l\<lparr>ahead := drop k (ahead l), position := position l + k,
                                     marked := (position l + k) # ms\<rparr>)"
proof (cases "ahead l")
  case Nil
  with eof loop_eof show ?thesis by blast
next
  case (Cons c cs)
  show ?thesis
  proof (cases "(c = 64 \<longrightarrow> (case cs of [] \<Rightarrow> True | d # _ \<Rightarrow> d \<noteq> 123)) \<and>
                (c = 60 \<longrightarrow> (case cs of [] \<Rightarrow> True | d # _ \<Rightarrow> d \<noteq> 47))")
    case True
    have neg: "\<not> interpolation_trigger (ahead l)" "\<not> closing_tag (ahead l)" "\<not> run_on_tag (ahead l)"
      using True Cons
      by (auto simp: interpolation_trigger_def closing_tag_def run_on_tag_def after_slash_def
          split: list.splits)
    from True loop_plain_step [OF Cons, of hc]
    have "scan_raw_text_loop hc l =
       scan_raw_text_loop True (l\<lparr>ahead := drop 1 (ahead l), position := position l + 1,
          marked := (position l + 1) #
            (if c = 64 \<or> c = 60 then position l # marked l else marked l)\<rparr>)"
      using Cons by simp
    with continue [of 1 "if c = 64 \<or> c = 60 then position l # marked l else marked l"] neg Cons
    show ?thesis by auto
  next
    case False
    then consider (at) rest where "c = 64" "cs = 123 # rest" | (lt) ys where "c = 60" "cs = 47 # ys"
      by (auto split: list.splits)
    then show ?thesis
    proof cases
      case at
      with Cons trigger show ?thesis by blast
    next
      case lt
      with Cons have a: "ahead l = 60 # 47 # ys" by simp
      let ?l1 = "l\<lparr>ahead := ys, position := position l + 2, marked := position l # marked l\<rparr>"
      note lp = loop_slash [OF a, of hc, unfolded after_slash_lexer [OF a]]
      show ?thesis
      proof (cases hc ?l1 rule: close_tag_name_cases)
        case (returned l0)
        with lp have "scan_raw_text_loop hc l =
            (hc, if hc then l0\<lparr>result_symbol := symbol RAW_TEXT\<rparr> else l0)"
          by (simp add: found_close_tag_eq)
        with closed [OF a _ returned(1,2)] returned(4) show ?thesis by simp
      next
        case (fell l2)
        from fell(1) obtain k where k: "k \<le> length ys" "l2 = passes ?l1 k"
          "\<forall>c\<in>set (take k ys). ascii_letter c"
          by (auto simp: skipped_def)
        have neg: "\<not> interpolation_trigger (ahead l)" "\<not> closing_tag (ahead l)"
          "\<not> run_on_tag (ahead l)"
          using fell(3,4) a
          by (simp_all add: interpolation_trigger_def closing_tag_def run_on_tag_def after_slash_def)
        have m: "mark_end l2 = l\<lparr>ahead := drop (k + 2) (ahead l), position := position l + (k + 2),
                                   marked := (position l + (k + 2)) # position l # marked l\<rparr>"
          using k(2) a by (simp add: passes_def mark_end_def add.commute)
        have "\<forall>c\<in>set (take (k + 2 - 1) (tl (ahead l))). c \<noteq> 60 \<and> c \<noteq> 64"
          using k(3) a by (auto dest: ascii_letter_not_special)
        moreover from lp fell(2) m have "scan_raw_text_loop hc l =
            scan_raw_text_loop True (l\<lparr>ahead := drop (k + 2) (ahead l),
              position := position l + (k + 2),
              marked := (position l + (k + 2)) # position l # marked l\<rparr>)"
          by simp
        moreover have "1 \<le> k + 2" "k + 2 \<le> length (ahead l)" using k(1) a by simp_all
        ultimately show ?thesis using continue [of "k + 2" "position l # marked l"] neg
          by blast
      qed
    qed
  qed
qed

subsection \<open>Properties of the loop\<close>

text \<open>
  Facts about the loop follow by induction on the length of the input ahead, from the
  case analysis of one iteration. Over ordinary content the loop runs to its end with
  \<^verbatim>\<open>has_content\<close> set and the token end marked there.
\<close>

lemma ordinary_append: "ordinary (xs @ ys) follow \<Longrightarrow> ordinary ys follow"
  by (induction xs) simp_all

lemma ordinary_drop: "ordinary content follow \<Longrightarrow> ordinary (drop k content) follow"
  using ordinary_append [of "take k content" "drop k content" follow] by simp

lemma ordinary_head:
  "ordinary content follow \<Longrightarrow> content \<noteq> [] \<Longrightarrow>
   \<not> interpolation_trigger (content @ follow) \<and> \<not> closing_tag (content @ follow) \<and>
   \<not> run_on_tag (content @ follow)"
  by (cases content) simp_all

lemma closed_is_tag:
  "ahead l = 60 # 47 # ys \<Longrightarrow> closing_name ys \<or> run_on_name ys \<Longrightarrow>
   closing_tag (ahead l) \<or> run_on_tag (ahead l)"
  by (auto simp: closing_tag_def run_on_tag_def after_slash_def)

lemma trigger_is_trigger: "ahead l = 64 # 123 # rest \<Longrightarrow> interpolation_trigger (ahead l)"
  by (simp add: interpolation_trigger_def)

lemma loop_ordinary:
  assumes "ordinary content follow" "follow = [] \<or> hd follow = 60 \<or> hd follow = 64"
    "content \<noteq> []" "ahead l = content @ follow"
  shows "\<exists>ms. scan_raw_text_loop hc l =
           scan_raw_text_loop True (l\<lparr>ahead := follow, position := position l + length content,
                                      marked := (position l + length content) # ms\<rparr>)"
  using assms
proof (induction "length content" arbitrary: content l hc rule: less_induct)
  case less
  note neg = ordinary_head [OF less.prems(1,3), folded less.prems(4)]
  show ?case
  proof (cases hc l rule: loop_step)
    case eof
    with less.prems show ?thesis by simp
  next
    case (trigger rest)
    with neg trigger_is_trigger show ?thesis by blast
  next
    case (closed ys l0)
    with neg closed_is_tag show ?thesis by blast
  next
    case (continue k ms)
    have k: "k \<le> length content"
    proof (rule ccontr)
      assume "\<not> k \<le> length content"
      then have gt: "length content < k" by simp
      with continue(2) less.prems(4) have f: "follow \<noteq> []" by auto
      from less.prems(3) obtain c cs where c: "content = c # cs" by (cases content) auto
      from f obtain d ds where d: "follow = d # ds" by (cases follow) auto
      from gt c have "k - 1 = length cs + Suc (k - 2 - length cs)" by simp
      then obtain m where "k - 1 = length cs + Suc m" ..
      then have "d \<in> set (take (k - 1) (tl (ahead l)))"
        using c d less.prems(4) by simp
      with continue(3) have "d \<noteq> 60 \<and> d \<noteq> 64" by blast
      with less.prems(2) d show False by simp
    qed
    let ?l2 = "l\<lparr>ahead := drop k (ahead l), position := position l + k,
                  marked := (position l + k) # ms\<rparr>"
    show ?thesis
    proof (cases "k = length content")
      case True
      with less.prems(4) have "drop k (ahead l) = follow" by simp
      with continue(8) True show ?thesis by (intro exI [of _ ms]) simp
    next
      case False
      with k have lt: "k < length content" by simp
      have "\<exists>ms'. scan_raw_text_loop True ?l2 =
           scan_raw_text_loop True (?l2\<lparr>ahead := follow,
              position := position ?l2 + length (drop k content),
              marked := (position ?l2 + length (drop k content)) # ms'\<rparr>)"
      proof (rule less.hyps)
        show "length (drop k content) < length content" using lt continue(1) by simp
        show "ordinary (drop k content) follow" using less.prems(1) by (rule ordinary_drop)
        show "follow = [] \<or> hd follow = 60 \<or> hd follow = 64" by (rule less.prems(2))
        show "drop k content \<noteq> []" using lt by simp
        show "ahead ?l2 = drop k content @ follow" using less.prems(4) k by simp
      qed
      then obtain ms' where eq: "scan_raw_text_loop True ?l2 =
           scan_raw_text_loop True (?l2\<lparr>ahead := follow,
              position := position ?l2 + length (drop k content),
              marked := (position ?l2 + length (drop k content)) # ms'\<rparr>)" ..
      have "?l2\<lparr>ahead := follow, position := position ?l2 + length (drop k content),
              marked := (position ?l2 + length (drop k content)) # ms'\<rparr> =
            l\<lparr>ahead := follow, position := position l + length content,
              marked := (position l + length content) # ms'\<rparr>"
        using k by simp
      with eq continue(8) show ?thesis by (intro exI [of _ ms']) simp
    qed
  qed
qed

lemma loop_True: "fst (scan_raw_text_loop True l)"
proof (induction "length (ahead l)" arbitrary: l rule: less_induct)
  case less
  show ?case
  proof (cases True l rule: loop_step)
    case eof
    from eof(2) show ?thesis by simp
  next
    case (trigger rest)
    from loop_trigger [OF trigger, of True] show ?thesis by simp
  next
    case (closed ys l0)
    from closed(5) show ?thesis by simp
  next
    case (continue k ms)
    let ?l2 = "l\<lparr>ahead := drop k (ahead l), position := position l + k,
                  marked := (position l + k) # ms\<rparr>"
    have "length (ahead ?l2) < length (ahead l)" using continue(1,2) by simp
    then have "fst (scan_raw_text_loop True ?l2)" by (rule less)
    then show ?thesis by (simp only: continue(8))
  qed
qed

lemma loop_result_symbol:
  "scan_raw_text_loop hc l = (True, l') \<Longrightarrow>
   result_symbol l' = symbol RAW_TEXT \<or> result_symbol l' = symbol RAW_TEXT_INTERPOLATION_START"
proof (induction "length (ahead l)" arbitrary: l hc rule: less_induct)
  case less
  show ?case
  proof (cases hc l rule: loop_step)
    case eof
    from eof(2) less.prems show ?thesis by (cases hc) auto
  next
    case (trigger rest)
    from loop_trigger [OF trigger, of hc] less.prems show ?thesis by (cases hc) auto
  next
    case (closed ys l0)
    from closed(5) less.prems show ?thesis by (cases hc) auto
  next
    case (continue k ms)
    let ?l2 = "l\<lparr>ahead := drop k (ahead l), position := position l + k,
                  marked := (position l + k) # ms\<rparr>"
    have "length (ahead ?l2) < length (ahead l)" using continue(1,2) by simp
    moreover from less.prems have "scan_raw_text_loop True ?l2 = (True, l')"
      by (simp only: continue(8))
    ultimately show ?thesis by (rule less.hyps)
  qed
qed

lemma loop_declined:
  assumes "scan_raw_text_loop False l = (False, l')"
  shows "(l' = l \<and> ahead l = []) \<or>
         (closing_tag (ahead l) \<or> run_on_tag (ahead l)) \<and> marked l' = position l # marked l \<and>
          result_symbol l' = result_symbol l"
proof (cases False l rule: loop_step)
  case eof
  from eof assms show ?thesis by simp
next
  case (trigger rest)
  from loop_trigger [OF trigger, of False] assms show ?thesis by simp
next
  case (closed ys l0)
  from closed(5) assms have "l' = l0" by simp
  with skipped_fields [OF closed(3)] closed_is_tag [OF closed(1,2)] show ?thesis by simp
next
  case (continue k ms)
  let ?l2 = "l\<lparr>ahead := drop k (ahead l), position := position l + k,
                marked := (position l + k) # ms\<rparr>"
  from assms have "scan_raw_text_loop True ?l2 = (False, l')" by (simp only: continue(8))
  with loop_True [of ?l2] show ?thesis by simp
qed

lemma loop_token_end:
  assumes "marked l = m # ms" "m \<le> position l"
  shows "\<exists>l' e. scan_raw_text_loop True l = (True, l') \<and> token_end l' = Some e \<and> m \<le> e"
  using assms
proof (induction "length (ahead l)" arbitrary: l m ms rule: less_induct)
  case less
  show ?case
  proof (cases True l rule: loop_step)
    case eof
    from eof(2) less.prems show ?thesis by (simp add: token_end_def)
  next
    case (trigger rest)
    from loop_trigger [OF trigger, of True] less.prems show ?thesis by (simp add: token_end_def)
  next
    case (closed ys l0)
    from closed(5) less.prems skipped_fields [OF closed(3)] show ?thesis
      by (simp add: token_end_def)
  next
    case (continue k ms')
    let ?l2 = "l\<lparr>ahead := drop k (ahead l), position := position l + k,
                  marked := (position l + k) # ms'\<rparr>"
    have "\<exists>l' e. scan_raw_text_loop True ?l2 = (True, l') \<and> token_end l' = Some e \<and>
       position l + k \<le> e"
    proof (rule less.hyps)
      show "length (ahead ?l2) < length (ahead l)" using continue(1,2) by simp
      show "marked ?l2 = (position l + k) # ms'" by simp
      show "position l + k \<le> position ?l2" by simp
    qed
    then obtain l' e where r: "scan_raw_text_loop True ?l2 = (True, l')" "token_end l' = Some e"
      "position l + k \<le> e" by blast
    from r(1) have "scan_raw_text_loop True l = (True, l')" by (simp only: continue(8))
    moreover from r(3) less.prems(2) have "m \<le> e" by simp
    ultimately show ?thesis using r(2) by blast
  qed
qed

lemma loop_closing:
  assumes "closing_tag (ahead l) \<or> run_on_tag (ahead l)"
  shows "\<exists>l0. scan_raw_text_loop hc l =
            (hc, if hc then l0\<lparr>result_symbol := symbol RAW_TEXT\<rparr> else l0) \<and>
          marked l0 = position l # marked l \<and> result_symbol l0 = result_symbol l \<and>
          tag_name_end l0"
proof (cases hc l rule: loop_step)
  case eof
  with assms show ?thesis
    by (simp add: closing_tag_def run_on_tag_def after_slash_def)
next
  case (trigger rest)
  with assms show ?thesis
    by (simp add: closing_tag_def run_on_tag_def after_slash_def)
next
  case (closed ys l0)
  from skipped_fields [OF closed(3)] closed(4,5) show ?thesis
    by (intro exI [of _ l0]) simp
next
  case (continue k ms)
  with assms show ?thesis by simp
qed

lemma loop_success_token:
  assumes "scan_raw_text_loop False l = (True, l')"
  shows "\<exists>e. token_end l' = Some e \<and> position l < e"
proof (cases False l rule: loop_step)
  case eof
  with assms show ?thesis by simp
next
  case (trigger rest)
  from loop_trigger [OF trigger, of False] assms show ?thesis
    by (auto simp: token_end_def)
next
  case (closed ys l0)
  with assms show ?thesis by simp
next
  case (continue k ms)
  let ?l2 = "l\<lparr>ahead := drop k (ahead l), position := position l + k,
                marked := (position l + k) # ms\<rparr>"
  have "\<exists>l' e. scan_raw_text_loop True ?l2 = (True, l') \<and> token_end l' = Some e \<and>
     position l + k \<le> e"
    by (rule loop_token_end) simp_all
  then obtain l2 e where r: "scan_raw_text_loop True ?l2 = (True, l2)" "token_end l2 = Some e"
    "position l + k \<le> e" by blast
  from r(1) assms have "l2 = l'" by (simp only: continue(8)) simp
  with r(2,3) continue(1) show ?thesis by auto
qed

lemma closing_tag_head: "closing_tag xs \<or> run_on_tag xs \<Longrightarrow> xs \<noteq> [] \<and> hd xs = 60"
  by (auto simp: closing_tag_def run_on_tag_def after_slash_def split: list.splits)


text \<open>Content in front of a text at which the scan stops.\<close>

lemma loop_content:
  assumes "content \<noteq> []" "ordinary content follow" "ahead l = content @ follow"
    and stop: "\<And>l2 ms. ahead l2 = follow \<Longrightarrow> position l2 = position l + length content \<Longrightarrow>
       marked l2 = (position l + length content) # ms \<Longrightarrow>
       \<exists>l3. scan_raw_text_loop True l2 = (True, l3) \<and> result_symbol l3 = symbol RAW_TEXT \<and>
         token_end l3 = Some (position l + length content)"
    and hd: "follow = [] \<or> hd follow = 60 \<or> hd follow = 64"
  shows "\<exists>l'. scan_raw_text_loop hc l = (True, l') \<and> result_symbol l' = symbol RAW_TEXT \<and>
           token_text l l' = content \<and> token_rest l l' = follow \<and>
           token_end l' = Some (position l + length content)"
proof -
  from loop_ordinary [OF assms(2) hd assms(1,3), of hc] obtain ms where
    eq: "scan_raw_text_loop hc l =
           scan_raw_text_loop True (l\<lparr>ahead := follow, position := position l + length content,
                                      marked := (position l + length content) # ms\<rparr>)" ..
  let ?l2 = "l\<lparr>ahead := follow, position := position l + length content,
                marked := (position l + length content) # ms\<rparr>"
  have "\<exists>l3. scan_raw_text_loop True ?l2 = (True, l3) \<and> result_symbol l3 = symbol RAW_TEXT \<and>
         token_end l3 = Some (position l + length content)"
    by (rule stop) simp_all
  then obtain l3 where l3: "scan_raw_text_loop True ?l2 = (True, l3)"
    "result_symbol l3 = symbol RAW_TEXT" "token_end l3 = Some (position l + length content)"
    by blast
  from l3(1) have "scan_raw_text_loop hc l = (True, l3)" by (simp only: eq)
  moreover from l3(3) assms(3) have "token_text l l3 = content" "token_rest l l3 = follow"
    by (simp_all add: token_text_def token_rest_def)
  ultimately show ?thesis using l3(2,3) by blast
qed

lemma stop_at_eof:
  assumes "ahead l2 = []" "marked l2 = m # ms"
  shows "\<exists>l3. scan_raw_text_loop True l2 = (True, l3) \<and> result_symbol l3 = symbol RAW_TEXT \<and>
         token_end l3 = Some m"
  using loop_eof [OF assms(1), of True] assms(2) by (simp add: token_end_def)

lemma stop_at_trigger:
  assumes "ahead l2 = 64 # 123 # rest"
  shows "\<exists>l3. scan_raw_text_loop True l2 = (True, l3) \<and> result_symbol l3 = symbol RAW_TEXT \<and>
         token_end l3 = Some (position l2)"
  using loop_trigger [OF assms, of True] by (simp add: token_end_def)

lemma stop_at_closing_tag:
  assumes "closing_tag (ahead l2) \<or> run_on_tag (ahead l2)"
  shows "\<exists>l3. scan_raw_text_loop hc l2 = (hc, l3) \<and>
         result_symbol l3 = (if hc then symbol RAW_TEXT else result_symbol l2) \<and>
         marked l3 = position l2 # marked l2 \<and> token_end l3 = Some (position l2)"
proof -
  from loop_closing [OF assms, of hc] obtain l0 where
    l0: "scan_raw_text_loop hc l2 = (hc, if hc then l0\<lparr>result_symbol := symbol RAW_TEXT\<rparr> else l0)"
    "marked l0 = position l2 # marked l2" "result_symbol l0 = result_symbol l2"
    by blast
  show ?thesis
    by (rule exI [of _ "if hc then l0\<lparr>result_symbol := symbol RAW_TEXT\<rparr> else l0"])
       (simp add: l0 token_end_def)
qed

lemma name_prefix_append:
  "name_prefix ci n xs = Some [] \<Longrightarrow> name_prefix ci n (xs @ ys) = Some ys"
  by (induction ci n xs rule: name_prefix.induct) (auto split: if_splits)

lemma skipped_to:
  assumes "skipped l l'" "ahead l = pre @ ahead l'"
  shows "l' = passes l (length pre)"
proof -
  from assms(1) obtain k where k: "k \<le> length (ahead l)" "l' = passes l k"
    by (auto simp: skipped_def)
  then have "ahead l' = drop k (ahead l)" by (simp add: passes_def)
  with assms(2) k(1) have "length (ahead l) = length pre + (length (ahead l) - k)" 
    by (metis length_append length_drop)
  with k(1) have "k = length pre" by simp
  with k(2) show ?thesis by simp
qed

lemma tyle_no_end:
  assumes "name_prefix True (cps ''tyle'') (ahead l) = Some r" "\<not> terminated r"
  shows "\<exists>l'. style_or_script_rest hc l = Fell l' \<and> ahead l' = r"
proof -
  from assms(1) have f: "lookahead l = 116 \<or> lookahead l = 84"
    "lookahead (advance l) = 121 \<or> lookahead (advance l) = 89"
    "lookahead (advance (advance l)) = 108 \<or> lookahead (advance (advance l)) = 76"
    "lookahead (advance (advance (advance l))) = 101 \<or> lookahead (advance (advance (advance l))) = 69"
    "ahead (advance (advance (advance (advance l)))) = r"
    by (simp_all add: cps_def name_prefix_ci split: if_splits)
  from f(5) assms(2) have "\<not> tag_name_end (advance (advance (advance (advance l))))"
    by (simp add: terminated_ahead [symmetric])
  with f(1-4) have "style_or_script_rest hc l = Fell (advance (advance (advance (advance l))))"
    by (simp add: style_or_script_rest_def Let_def)
  with f(5) show ?thesis by blast
qed

lemma cript_no_end:
  assumes "name_prefix True (cps ''cript'') (ahead l) = Some r" "\<not> terminated r"
  shows "\<exists>l'. style_or_script_rest hc l = Fell l' \<and> ahead l' = r"
proof -
  from assms(1) have f: "lookahead l = 99 \<or> lookahead l = 67"
    "lookahead (advance l) = 114 \<or> lookahead (advance l) = 82"
    "lookahead (advance (advance l)) = 105 \<or> lookahead (advance (advance l)) = 73"
    "lookahead (advance (advance (advance l))) = 112 \<or> lookahead (advance (advance (advance l))) = 80"
    "lookahead (advance (advance (advance (advance l)))) = 116 \<or>
     lookahead (advance (advance (advance (advance l)))) = 84"
    "ahead (advance (advance (advance (advance (advance l))))) = r"
    by (simp_all add: cps_def name_prefix_ci split: if_splits)
  from f(6) assms(2) have "\<not> tag_name_end (advance (advance (advance (advance (advance l)))))"
    by (simp add: terminated_ahead [symmetric])
  moreover from f(1) have "lookahead l \<noteq> 116" "lookahead l \<noteq> 84" by auto
  ultimately have "style_or_script_rest hc l =
      Fell (advance (advance (advance (advance (advance l)))))"
    using f(1-5) by (simp add: style_or_script_rest_def Let_def)
  with f(6) show ?thesis by blast
qed

lemma name_prefix_first:
  assumes "97 \<le> n" "n \<le> 122" "name_prefix True (n # ns) (ahead l) = Some r"
  shows "(lookahead l = n \<or> lookahead l = n - 32) \<and>
         name_prefix True ns (ahead (advance l)) = Some r"
  using assms(3) unfolding name_prefix_ci [OF assms(1,2)] by (simp split: if_splits)

lemma name_no_end:
  assumes n: "name_prefix True (cps ''style'') (ahead l) = Some r \<or>
              name_prefix True (cps ''script'') (ahead l) = Some r"
    and r: "\<not> terminated r"
  shows "\<exists>l'. close_tag_name hc l = Fell l' \<and> ahead l' = r"
proof -
  have c: "cps ''style'' = 115 # cps ''tyle''" "cps ''script'' = 115 # cps ''cript''"
    "cps ''tyle'' = 116 # cps ''yle''" "cps ''cript'' = 99 # cps ''ript''"
    by (simp_all add: cps_def)
  from n have s: "lookahead l = 115 \<or> lookahead l = 83"
    and t: "name_prefix True (cps ''tyle'') (ahead (advance l)) = Some r \<or>
            name_prefix True (cps ''cript'') (ahead (advance l)) = Some r"
    unfolding c(1,2) using name_prefix_first [of 115 _ l r] by auto
  from t r obtain l' where l': "style_or_script_rest hc (advance l) = Fell l'" "ahead l' = r"
    using tyle_no_end cript_no_end by blast
  from t have "lookahead (advance l) \<noteq> 81"
    unfolding c(3,4)
    using name_prefix_first [of 116 _ "advance l" r] name_prefix_first [of 99 _ "advance l" r]
    by auto
  then have "sql_rest hc (advance l) = Fell (advance l)" by (rule sql_rest_not_Q)
  with s l'(1) have "close_tag_name hc l = Fell l'"
    by (auto simp: close_tag_name_S close_tag_name_s)
  with l'(2) show ?thesis by blast
qed

lemma SQL_no_end:
  assumes n: "name_prefix False (cps ''SQL'') (ahead l) = Some r"
    and r: "\<not> terminated r"
    and c: "r = [] \<or> (hd r \<noteq> 116 \<and> hd r \<noteq> 84 \<and> hd r \<noteq> 99 \<and> hd r \<noteq> 67)"
  shows "\<exists>l'. close_tag_name hc l = Fell l' \<and> ahead l' = r"
proof -
  from n have f: "lookahead l = 83" "lookahead (advance l) = 81"
    "lookahead (advance (advance l)) = 76" "ahead (advance (advance (advance l))) = r"
    by (simp_all add: cps_def name_prefix_cs split: if_splits)
  from f(4) r have "\<not> tag_name_end (advance (advance (advance l)))"
    by (simp add: terminated_ahead [symmetric])
  with f(2,3) have q: "sql_rest hc (advance l) = Fell (advance (advance (advance l)))"
    by (rule sql_rest_QL_no_end)
  from c f(4) have "lookahead (advance (advance (advance l))) \<noteq> 116"
    "lookahead (advance (advance (advance l))) \<noteq> 84"
    "lookahead (advance (advance (advance l))) \<noteq> 99"
    "lookahead (advance (advance (advance l))) \<noteq> 67"
    by (cases r; simp add: lookahead_def)+
  then have "style_or_script_rest hc (advance (advance (advance l))) =
      Fell (advance (advance (advance l)))"
    by (simp add: style_or_script_rest_def)
  with q f(1) have "close_tag_name hc l = Fell (advance (advance (advance l)))"
    by (simp add: close_tag_name_S)
  with f(4) show ?thesis by blast
qed

text \<open>A tag-like text whose name is not followed by the end of a tag name is content.\<close>

lemma loop_name_no_end:
  assumes a: "ahead l = 60 # 47 # name @ r"
    and f: "\<And>l1 :: TSLexer. ahead l1 = name @ r \<Longrightarrow> \<exists>l'. close_tag_name hc l1 = Fell l' \<and> ahead l' = r"
  shows "scan_raw_text_loop hc l =
           scan_raw_text_loop True (l\<lparr>ahead := r, position := position l + (2 + length name),
              marked := (position l + (2 + length name)) # position l # marked l\<rparr>)"
proof -
  let ?l1 = "l\<lparr>ahead := name @ r, position := position l + 2, marked := position l # marked l\<rparr>"
  from a have a': "ahead l = 60 # 47 # (name @ r)" by simp
  note lp = loop_slash [OF a', of hc, unfolded after_slash_lexer [OF a']]
  from f [of ?l1] obtain l' where l': "close_tag_name hc ?l1 = Fell l'" "ahead l' = r" by auto
  from close_tag_name_fell [OF l'(1)] have "skipped ?l1 l'" .
  then have "l' = passes ?l1 (length name)" by (rule skipped_to) (simp add: l'(2))
  then have "mark_end l' = l\<lparr>ahead := r, position := position l + (2 + length name),
              marked := (position l + (2 + length name)) # position l # marked l\<rparr>"
    by (simp add: passes_def mark_end_def)
  with lp l'(1) show ?thesis by simp
qed


lemma name_prefix_exact: "name_prefix False n n = Some []"
  by (induction n) simp_all

lemma recognised_closing:
  assumes "recognised_name name" "terminated rest"
  shows "closing_name (name @ rest)"
proof -
  from assms(1) consider "name_prefix True (cps ''style'') name = Some []"
    | "name_prefix True (cps ''script'') name = Some []"
    | "name_prefix False (cps ''SQL'') name = Some []"
    by (auto simp: recognised_name_def folds_to_def name_prefix_exact)
  then show ?thesis
    using assms(2) by cases (simp_all add: closing_name_def name_then_end_def name_prefix_append)
qed

lemma loop_recognised:
  assumes "ahead l = cps ''</'' @ name @ rest" "recognised_name name" "terminated rest"
  shows "\<exists>l'. scan_raw_text_loop hc l = (hc, l') \<and> token_end l' = Some (position l)"
proof -
  from recognised_closing [OF assms(2,3)] assms(1) have "closing_tag (ahead l)"
    by (simp add: closing_tag_def after_slash_def cps_def)
  then have "closing_tag (ahead l) \<or> run_on_tag (ahead l)" ..
  from stop_at_closing_tag [OF this, of hc] show ?thesis by blast
qed

section \<open>Properties\<close>

subsection \<open>State serialisation\<close>

text \<open>
  C7. Serialising writes the mode into the first byte of the buffer and reports one byte;
  deserialising those bytes gives back the state that was serialised, whatever state the
  scanner held before; deserialising an empty byte sequence gives the initial state, in
  which no raw-text region is open.
\<close>

theorem serialize_round_trip:
  assumes "1 \<le> length buffer"
  shows "fst (tree_sitter_parsley_external_scanner_serialize s buffer) ! 0 = raw_text_mode s \<and>
    snd (tree_sitter_parsley_external_scanner_serialize s buffer) = 1 \<and>
    tree_sitter_parsley_external_scanner_deserialize p
      (take (snd (tree_sitter_parsley_external_scanner_serialize s buffer))
         (fst (tree_sitter_parsley_external_scanner_serialize s buffer)))
      (snd (tree_sitter_parsley_external_scanner_serialize s buffer)) = s \<and>
    tree_sitter_parsley_external_scanner_deserialize p [] 0 =
      tree_sitter_parsley_external_scanner_create"
  using assms
  by (cases buffer)
     (simp_all add: tree_sitter_parsley_external_scanner_serialize_def
       tree_sitter_parsley_external_scanner_deserialize_def
       tree_sitter_parsley_external_scanner_create_def)

theorem serialize_round_trip_witness:
  "1 \<le> length [7, 9 :: 8 word] \<and>
   tree_sitter_parsley_external_scanner_deserialize \<lparr>raw_text_mode = 0\<rparr>
      (take (snd (tree_sitter_parsley_external_scanner_serialize \<lparr>raw_text_mode = 2\<rparr> [7, 9]))
         (fst (tree_sitter_parsley_external_scanner_serialize \<lparr>raw_text_mode = 2\<rparr> [7, 9])))
      (snd (tree_sitter_parsley_external_scanner_serialize \<lparr>raw_text_mode = 2\<rparr> [7, 9])) =
    \<lparr>raw_text_mode = 2\<rparr> \<and>
   fst (tree_sitter_parsley_external_scanner_serialize \<lparr>raw_text_mode = 2\<rparr> [7, 9]) = [2, 9]"
  using serialize_round_trip [of "[7, 9]" "\<lparr>raw_text_mode = 2\<rparr>" "\<lparr>raw_text_mode = 0\<rparr>"]
  by (simp add: tree_sitter_parsley_external_scanner_serialize_def)

subsection \<open>The scan entry point\<close>

text \<open>
  C9. When neither raw-text token is valid, the entry point declines at once and leaves
  the scanner state and the lexer as they were. Otherwise its result is the result of
  the raw-text scan. Whenever it reports a token, the token kind is one of the two
  raw-text kinds, and so never the error sentinel.
\<close>

theorem scan_dispatch:
  "(\<not> valid_symbols RAW_TEXT \<and> \<not> valid_symbols RAW_TEXT_INTERPOLATION_START \<longrightarrow>
      tree_sitter_parsley_external_scanner_scan payload lexer valid_symbols =
        (False, payload, lexer)) \<and>
   (valid_symbols RAW_TEXT \<or> valid_symbols RAW_TEXT_INTERPOLATION_START \<longrightarrow>
      tree_sitter_parsley_external_scanner_scan payload lexer valid_symbols =
        scan_raw_text payload lexer valid_symbols) \<and>
   (tree_sitter_parsley_external_scanner_scan payload lexer valid_symbols = (True, payload', lexer') \<longrightarrow>
      (result_symbol lexer' = symbol RAW_TEXT \<or>
       result_symbol lexer' = symbol RAW_TEXT_INTERPOLATION_START) \<and>
      result_symbol lexer' \<noteq> symbol ERROR_SENTINEL)"
proof (intro conjI impI)
  assume "tree_sitter_parsley_external_scanner_scan payload lexer valid_symbols =
    (True, payload', lexer')"
  then have "scan_raw_text_loop False lexer = (True, lexer')"
    by (auto simp: tree_sitter_parsley_external_scanner_scan_def scan_raw_text_def
        split: if_splits prod.splits)
  then show r: "result_symbol lexer' = symbol RAW_TEXT \<or>
       result_symbol lexer' = symbol RAW_TEXT_INTERPOLATION_START"
    by (rule loop_result_symbol)
  then show "result_symbol lexer' \<noteq> symbol ERROR_SENTINEL" by auto
qed (simp_all add: tree_sitter_parsley_external_scanner_scan_def)

theorem scan_dispatch_witness:
  "\<not> outside_raw_text RAW_TEXT \<and> \<not> outside_raw_text RAW_TEXT_INTERPOLATION_START \<and>
   tree_sitter_parsley_external_scanner_scan \<lparr>raw_text_mode = 1\<rparr> (lexer_at (cps ''a'' @ trigger)) outside_raw_text =
     (False, \<lparr>raw_text_mode = 1\<rparr>, lexer_at (cps ''a'' @ trigger)) \<and>
   in_raw_text RAW_TEXT \<and>
   tree_sitter_parsley_external_scanner_scan \<lparr>raw_text_mode = 1\<rparr> (lexer_at (cps ''a'' @ trigger)) in_raw_text =
     (True, \<lparr>raw_text_mode = 1\<rparr>,
      \<lparr>ahead = cps ''{'', position = 2, marked = [1, 1], result_symbol = symbol RAW_TEXT\<rparr>) \<and>
   symbol RAW_TEXT \<noteq> symbol ERROR_SENTINEL"
  using scan_dispatch [of outside_raw_text "\<lparr>raw_text_mode = 1\<rparr>" "lexer_at (cps ''a'' @ trigger)"]
    scan_dispatch [of in_raw_text "\<lparr>raw_text_mode = 1\<rparr>" "lexer_at (cps ''a'' @ trigger)" "\<lparr>raw_text_mode = 1\<rparr>"
      "\<lparr>ahead = cps ''{'', position = 2, marked = [1, 1], result_symbol = symbol RAW_TEXT\<rparr>"]
  by (simp add: in_raw_text_def outside_raw_text_def scan_raw_text_def scan_raw_text_loop.simps
      lexer_at_def cps_def trigger_def lookahead_def eof_def advance_def mark_end_def)

subsection \<open>Raw text in front of a closing tag\<close>

text \<open>
  Where no trigger, no closing tag and no run-on tag begins inside nonempty content, a
  scan of the content followed by a closing tag reports the content as one raw-text token
  and leaves the closing tag as the input after it; a scan that starts at the closing tag
  declines.
\<close>

lemma content_before_closing_tag:
  assumes "content \<noteq> []" and "ordinary content tag" and "closing_tag tag"
    and "ahead l = content @ tag"
  shows "(\<exists>l'. scan_raw_text sc l v = (True, sc, l') \<and> result_symbol l' = symbol RAW_TEXT \<and>
            token_text l l' = content \<and> token_rest l l' = tag) \<and>
         (\<forall>l2. ahead l2 = tag \<longrightarrow> fst (scan_raw_text sc l2 v) = False)"
proof
  have "\<exists>l'. scan_raw_text_loop False l = (True, l') \<and> result_symbol l' = symbol RAW_TEXT \<and>
           token_text l l' = content \<and> token_rest l l' = tag \<and>
           token_end l' = Some (position l + length content)"
  proof (rule loop_content [OF assms(1,2,4)])
    fix l2 :: TSLexer and ms
    assume l2: "ahead l2 = tag" "position l2 = position l + length content"
    with assms(3) have "closing_tag (ahead l2) \<or> run_on_tag (ahead l2)" by simp
    from stop_at_closing_tag [OF this, of True] l2(2)
    show "\<exists>l3. scan_raw_text_loop True l2 = (True, l3) \<and> result_symbol l3 = symbol RAW_TEXT \<and>
         token_end l3 = Some (position l + length content)" by auto
  next
    from closing_tag_head [of tag] assms(3)
    show "tag = [] \<or> hd tag = 60 \<or> hd tag = 64" by simp
  qed
  then show "\<exists>l'. scan_raw_text sc l v = (True, sc, l') \<and> result_symbol l' = symbol RAW_TEXT \<and>
            token_text l l' = content \<and> token_rest l l' = tag"
    by (auto simp: scan_raw_text_def)
next
  show "\<forall>l2. ahead l2 = tag \<longrightarrow> fst (scan_raw_text sc l2 v) = False"
  proof (intro allI impI)
    fix l2 :: TSLexer assume "ahead l2 = tag"
    with assms(3) have "closing_tag (ahead l2) \<or> run_on_tag (ahead l2)" by simp
    from stop_at_closing_tag [OF this, of False] show "fst (scan_raw_text sc l2 v) = False"
      by (auto simp: scan_raw_text_def)
  qed
qed

text \<open>
  C1. The property fails on the code where a run-on tag begins inside the content. The
  content \<open>a</SQtyle>b\<close> is not empty and holds no trigger and no closing tag; it is
  followed by the closing tag \<open></style>\<close>. The scan reports a raw-text token, but
  its text is \<open>a\<close> only, not the content: the lookahead takes \<open></SQtyle>\<close> for
  a closing tag.
\<close>

theorem run_on_tag_inside_content:
  "cps ''a</SQtyle>b'' \<noteq> [] \<and> tag_free (cps ''a</SQtyle>b'') (cps ''</style>'') \<and>
   closing_tag (cps ''</style>'') \<and>
   scan_text (cps ''a</SQtyle>b'' @ cps ''</style>'') =
     (True, symbol RAW_TEXT, cps ''a'', cps ''</SQtyle>b</style>'') \<and>
   cps ''a'' \<noteq> cps ''a</SQtyle>b''"
  by code_simp

subsection \<open>The interpolation trigger\<close>

text \<open>
  C5. At a trigger with no content before it, the scan reports the interpolation-start
  token, whose text is exactly the two characters of the trigger. When the loop reaches a
  trigger with content accumulated, it reports a raw-text token that ends in front of the
  trigger; so a scan of content, in which nothing stops the scanner, followed by a trigger
  reports the content as raw text and leaves the trigger as the input after the token.
\<close>

theorem interpolation_start:
  "(ahead l = trigger @ rest \<longrightarrow>
      (\<exists>l'. scan_raw_text sc l v = (True, sc, l') \<and>
         result_symbol l' = symbol RAW_TEXT_INTERPOLATION_START \<and>
         token_text l l' = trigger \<and> token_rest l l' = rest)) \<and>
   (ahead l = trigger @ rest \<longrightarrow>
      (\<exists>l'. scan_raw_text_loop True l = (True, l') \<and> result_symbol l' = symbol RAW_TEXT \<and>
         token_end l' = Some (position l))) \<and>
   (content \<noteq> [] \<and> ordinary content (trigger @ rest) \<and> ahead l = content @ trigger @ rest \<longrightarrow>
      (\<exists>l'. scan_raw_text sc l v = (True, sc, l') \<and> result_symbol l' = symbol RAW_TEXT \<and>
         token_text l l' = content \<and> token_rest l l' = trigger @ rest))"
proof (intro conjI impI)
  assume a: "ahead l = trigger @ rest"
  then have a': "ahead l = 64 # 123 # rest" by (simp add: trigger_def)
  from loop_trigger [OF a', of False] a'
  show "\<exists>l'. scan_raw_text sc l v = (True, sc, l') \<and>
         result_symbol l' = symbol RAW_TEXT_INTERPOLATION_START \<and>
         token_text l l' = trigger \<and> token_rest l l' = rest"
    by (simp add: scan_raw_text_def token_text_def token_rest_def token_end_def trigger_def)
  from stop_at_trigger [OF a']
  show "\<exists>l'. scan_raw_text_loop True l = (True, l') \<and> result_symbol l' = symbol RAW_TEXT \<and>
         token_end l' = Some (position l)" .
next
  assume h: "content \<noteq> [] \<and> ordinary content (trigger @ rest) \<and> ahead l = content @ trigger @ rest"
  have "\<exists>l'. scan_raw_text_loop False l = (True, l') \<and> result_symbol l' = symbol RAW_TEXT \<and>
           token_text l l' = content \<and> token_rest l l' = trigger @ rest \<and>
           token_end l' = Some (position l + length content)"
  proof (rule loop_content)
    show "content \<noteq> []" "ordinary content (trigger @ rest)" "ahead l = content @ trigger @ rest"
      using h by simp_all
    show "trigger @ rest = [] \<or> hd (trigger @ rest) = 60 \<or> hd (trigger @ rest) = 64"
      by (simp add: trigger_def)
  next
    fix l2 :: TSLexer and ms
    assume l2: "ahead l2 = trigger @ rest" "position l2 = position l + length content"
    then have "ahead l2 = 64 # 123 # rest" by (simp add: trigger_def)
    from stop_at_trigger [OF this] l2(2)
    show "\<exists>l3. scan_raw_text_loop True l2 = (True, l3) \<and> result_symbol l3 = symbol RAW_TEXT \<and>
         token_end l3 = Some (position l + length content)" by simp
  qed
  then show "\<exists>l'. scan_raw_text sc l v = (True, sc, l') \<and> result_symbol l' = symbol RAW_TEXT \<and>
         token_text l l' = content \<and> token_rest l l' = trigger @ rest"
    by (auto simp: scan_raw_text_def)
qed

theorem interpolation_start_witness:
  "scan_text (trigger @ cps ''x}'') =
     (True, symbol RAW_TEXT_INTERPOLATION_START, trigger, cps ''x}'') \<and>
   cps ''a@b'' \<noteq> [] \<and> ordinary (cps ''a@b'') (trigger @ cps ''x}'') \<and>
   scan_text (cps ''a@b'' @ trigger @ cps ''x}'') =
     (True, symbol RAW_TEXT, cps ''a@b'', trigger @ cps ''x}'')"
proof -
  let ?sc = tree_sitter_parsley_external_scanner_create
  have h: "cps ''a@b'' \<noteq> []" "ordinary (cps ''a@b'') (trigger @ cps ''x}'')"
    by code_simp+
  note t1 = interpolation_start [of "lexer_at (trigger @ cps ''x}'')" "cps ''x}''" ?sc in_raw_text]
  note t2 = interpolation_start [of "lexer_at (cps ''a@b'' @ trigger @ cps ''x}'')" "cps ''x}''"
      ?sc in_raw_text "cps ''a@b''"]
  from t1 obtain l' where "scan_raw_text ?sc (lexer_at (trigger @ cps ''x}'')) in_raw_text = (True, ?sc, l')"
    "result_symbol l' = symbol RAW_TEXT_INTERPOLATION_START"
    "token_text (lexer_at (trigger @ cps ''x}'')) l' = trigger"
    "token_rest (lexer_at (trigger @ cps ''x}'')) l' = cps ''x}''"
    by (auto simp: lexer_at_def)
  then have 1: "scan_text (trigger @ cps ''x}'') =
     (True, symbol RAW_TEXT_INTERPOLATION_START, trigger, cps ''x}'')"
    by (simp add: scan_text_def tree_sitter_parsley_external_scanner_scan_def in_raw_text_def)
  from t2 h obtain l' where
    "scan_raw_text ?sc (lexer_at (cps ''a@b'' @ trigger @ cps ''x}'')) in_raw_text = (True, ?sc, l')"
    "result_symbol l' = symbol RAW_TEXT"
    "token_text (lexer_at (cps ''a@b'' @ trigger @ cps ''x}'')) l' = cps ''a@b''"
    "token_rest (lexer_at (cps ''a@b'' @ trigger @ cps ''x}'')) l' = trigger @ cps ''x}''"
    by (auto simp: lexer_at_def)
  then have 2: "scan_text (cps ''a@b'' @ trigger @ cps ''x}'') =
     (True, symbol RAW_TEXT, cps ''a@b'', trigger @ cps ''x}'')"
    by (simp add: scan_text_def tree_sitter_parsley_external_scanner_scan_def in_raw_text_def)
  from h 1 2 show ?thesis by simp
qed

subsection \<open>The end of input\<close>

text \<open>
  C10. At the end of input the loop declines when it has no content and reports raw text
  when it has some; a scan that starts at the end of input declines and changes nothing.
  A scan of content in which nothing stops the scanner, up to the end of input, reports
  one raw-text token that covers all of it. The scan is a total function: it returns on
  every input.
\<close>

theorem end_of_input:
  "(ahead l = [] \<longrightarrow>
      scan_raw_text_loop False l = (False, l) \<and>
      scan_raw_text_loop True l = (True, l\<lparr>result_symbol := symbol RAW_TEXT\<rparr>) \<and>
      scan_raw_text sc l v = (False, sc, l)) \<and>
   (content \<noteq> [] \<and> ordinary content [] \<and> ahead l = content \<longrightarrow>
      (\<exists>l'. scan_raw_text sc l v = (True, sc, l') \<and> result_symbol l' = symbol RAW_TEXT \<and>
         token_text l l' = content \<and> token_rest l l' = [] \<and>
         token_end l' = Some (position l + length (ahead l))))"
proof (intro conjI impI)
  assume a: "ahead l = []"
  from loop_eof [OF a, of False] show "scan_raw_text_loop False l = (False, l)" by simp
  then show "scan_raw_text sc l v = (False, sc, l)" by (simp add: scan_raw_text_def)
  from loop_eof [OF a, of True]
  show "scan_raw_text_loop True l = (True, l\<lparr>result_symbol := symbol RAW_TEXT\<rparr>)" by simp
next
  assume h: "content \<noteq> [] \<and> ordinary content [] \<and> ahead l = content"
  have "\<exists>l'. scan_raw_text_loop False l = (True, l') \<and> result_symbol l' = symbol RAW_TEXT \<and>
           token_text l l' = content \<and> token_rest l l' = [] \<and>
           token_end l' = Some (position l + length content)"
  proof (rule loop_content)
    show "content \<noteq> []" "ordinary content []" "ahead l = content @ []" using h by simp_all
    show "[] = [] \<or> hd [] = (60::int) \<or> hd [] = (64::int)" by simp
  next
    fix l2 :: TSLexer and ms
    assume l2: "ahead l2 = []" "marked l2 = (position l + length content) # ms"
    from stop_at_eof [OF l2]
    show "\<exists>l3. scan_raw_text_loop True l2 = (True, l3) \<and> result_symbol l3 = symbol RAW_TEXT \<and>
         token_end l3 = Some (position l + length content)" .
  qed
  with h show "\<exists>l'. scan_raw_text sc l v = (True, sc, l') \<and> result_symbol l' = symbol RAW_TEXT \<and>
         token_text l l' = content \<and> token_rest l l' = [] \<and>
         token_end l' = Some (position l + length (ahead l))"
    by (auto simp: scan_raw_text_def)
qed

theorem end_of_input_witness:
  "fst (scan_text []) = False \<and>
   cps ''a@bc'' \<noteq> [] \<and> ordinary (cps ''a@bc'') [] \<and>
   scan_text (cps ''a@bc'') = (True, symbol RAW_TEXT, cps ''a@bc'', [])"
proof -
  let ?sc = tree_sitter_parsley_external_scanner_create
  have h: "cps ''a@bc'' \<noteq> []" "ordinary (cps ''a@bc'') []"
    by code_simp+
  from end_of_input [of "lexer_at []" ?sc in_raw_text]
  have 1: "fst (scan_text []) = False"
    by (simp add: scan_text_def tree_sitter_parsley_external_scanner_scan_def in_raw_text_def
        lexer_at_def)
  from end_of_input [of "lexer_at (cps ''a@bc'')" ?sc in_raw_text "cps ''a@bc''"] h
  obtain l' where "scan_raw_text ?sc (lexer_at (cps ''a@bc'')) in_raw_text = (True, ?sc, l')"
    "result_symbol l' = symbol RAW_TEXT"
    "token_text (lexer_at (cps ''a@bc'')) l' = cps ''a@bc''"
    "token_rest (lexer_at (cps ''a@bc'')) l' = []"
    by (auto simp: lexer_at_def)
  then have 2: "scan_text (cps ''a@bc'') = (True, symbol RAW_TEXT, cps ''a@bc'', [])"
    by (simp add: scan_text_def tree_sitter_parsley_external_scanner_scan_def in_raw_text_def)
  from h 1 2 show ?thesis by simp
qed

subsection \<open>The scanner state is not consulted\<close>

text \<open>
  C6. The result of a raw-text scan, the returned flag and the lexer it leaves, is the
  same for every value of the scanner state, and the scan leaves the state as it was; the
  same holds for the entry point. So whatever the state says, a scan that starts at any
  of the recognised closing tags declines there, and content in front of any of them is
  reported up to the tag.
\<close>

theorem scan_independent_of_state:
  "fst (scan_raw_text s1 l v) = fst (scan_raw_text s2 l v) \<and>
   snd (snd (scan_raw_text s1 l v)) = snd (snd (scan_raw_text s2 l v)) \<and>
   fst (snd (scan_raw_text s1 l v)) = s1 \<and>
   fst (tree_sitter_parsley_external_scanner_scan s1 l v) =
     fst (tree_sitter_parsley_external_scanner_scan s2 l v) \<and>
   snd (snd (tree_sitter_parsley_external_scanner_scan s1 l v)) =
     snd (snd (tree_sitter_parsley_external_scanner_scan s2 l v)) \<and>
   fst (snd (tree_sitter_parsley_external_scanner_scan s1 l v)) = s1 \<and>
   (closing_tag (ahead l) \<longrightarrow>
      (\<exists>l'. scan_raw_text s1 l v = (False, s1, l') \<and> marked l' = position l # marked l)) \<and>
   (content \<noteq> [] \<and> ordinary content tag \<and> closing_tag tag \<and> ahead l = content @ tag \<longrightarrow>
      (\<exists>l'. scan_raw_text s1 l v = (True, s1, l') \<and> token_text l l' = content))"
proof (intro conjI impI)
  assume "closing_tag (ahead l)"
  then have "closing_tag (ahead l) \<or> run_on_tag (ahead l)" ..
  from stop_at_closing_tag [OF this, of False]
  show "\<exists>l'. scan_raw_text s1 l v = (False, s1, l') \<and> marked l' = position l # marked l"
    by (auto simp: scan_raw_text_def)
next
  assume h: "content \<noteq> [] \<and> ordinary content tag \<and> closing_tag tag \<and> ahead l = content @ tag"
  have "\<exists>l'. scan_raw_text_loop False l = (True, l') \<and> result_symbol l' = symbol RAW_TEXT \<and>
           token_text l l' = content \<and> token_rest l l' = tag \<and>
           token_end l' = Some (position l + length content)"
  proof (rule loop_content)
    show "content \<noteq> []" "ordinary content tag" "ahead l = content @ tag" using h by simp_all
    from closing_tag_head [of tag] h show "tag = [] \<or> hd tag = 60 \<or> hd tag = 64" by simp
  next
    fix l2 :: TSLexer and ms
    assume l2: "ahead l2 = tag" "position l2 = position l + length content"
    with h have "closing_tag (ahead l2) \<or> run_on_tag (ahead l2)" by simp
    from stop_at_closing_tag [OF this, of True] l2(2)
    show "\<exists>l3. scan_raw_text_loop True l2 = (True, l3) \<and> result_symbol l3 = symbol RAW_TEXT \<and>
         token_end l3 = Some (position l + length content)" by auto
  qed
  then show "\<exists>l'. scan_raw_text s1 l v = (True, s1, l') \<and> token_text l l' = content"
    by (auto simp: scan_raw_text_def)
qed (simp_all add: scan_raw_text_def tree_sitter_parsley_external_scanner_scan_def
      case_prod_beta)

theorem scan_independent_of_state_witness:
  "closing_tag (cps ''</SQL>'') \<and>
   fst (scan_raw_text \<lparr>raw_text_mode = 1\<rparr> (lexer_at (cps ''</SQL>'')) in_raw_text) = False \<and>
   fst (scan_raw_text \<lparr>raw_text_mode = 0\<rparr> (lexer_at (cps ''</SQL>'')) in_raw_text) = False \<and>
   cps ''p{}'' \<noteq> [] \<and> ordinary (cps ''p{}'') (cps ''</script>'') \<and> closing_tag (cps ''</script>'') \<and>
   fst (scan_raw_text \<lparr>raw_text_mode = 1\<rparr> (lexer_at (cps ''p{}'' @ cps ''</script>'')) in_raw_text) = True \<and>
   fst (scan_raw_text \<lparr>raw_text_mode = 2\<rparr> (lexer_at (cps ''p{}'' @ cps ''</script>'')) in_raw_text) = True"
proof -
  have h: "closing_tag (cps ''</SQL>'')" "cps ''p{}'' \<noteq> []"
    "ordinary (cps ''p{}'') (cps ''</script>'')" "closing_tag (cps ''</script>'')"
    by code_simp+
  note t1 = scan_independent_of_state [of "\<lparr>raw_text_mode = 1\<rparr>" "lexer_at (cps ''</SQL>'')"
      in_raw_text "\<lparr>raw_text_mode = 0\<rparr>"]
  note t2 = scan_independent_of_state [of "\<lparr>raw_text_mode = 1\<rparr>"
      "lexer_at (cps ''p{}'' @ cps ''</script>'')" in_raw_text "\<lparr>raw_text_mode = 2\<rparr>"
      "cps ''p{}''" "cps ''</script>''"]
  from t1 h(1) obtain l1 where
    "scan_raw_text \<lparr>raw_text_mode = 1\<rparr> (lexer_at (cps ''</SQL>'')) in_raw_text =
       (False, \<lparr>raw_text_mode = 1\<rparr>, l1)"
    by (auto simp: lexer_at_def)
  then have a1:
    "fst (scan_raw_text \<lparr>raw_text_mode = 1\<rparr> (lexer_at (cps ''</SQL>'')) in_raw_text) = False"
    by simp
  from t1 have "fst (scan_raw_text \<lparr>raw_text_mode = 1\<rparr> (lexer_at (cps ''</SQL>'')) in_raw_text) =
    fst (scan_raw_text \<lparr>raw_text_mode = 0\<rparr> (lexer_at (cps ''</SQL>'')) in_raw_text)"
    by (rule conjunct1)
  with a1 have a2:
    "fst (scan_raw_text \<lparr>raw_text_mode = 0\<rparr> (lexer_at (cps ''</SQL>'')) in_raw_text) = False"
    by simp
  from t2 h(2,3,4) obtain l2 where
    "scan_raw_text \<lparr>raw_text_mode = 1\<rparr> (lexer_at (cps ''p{}'' @ cps ''</script>'')) in_raw_text =
       (True, \<lparr>raw_text_mode = 1\<rparr>, l2)"
    by (auto simp: lexer_at_def)
  then have b1:
    "fst (scan_raw_text \<lparr>raw_text_mode = 1\<rparr> (lexer_at (cps ''p{}'' @ cps ''</script>'')) in_raw_text) = True"
    by simp
  from t2 have "fst (scan_raw_text \<lparr>raw_text_mode = 1\<rparr> (lexer_at (cps ''p{}'' @ cps ''</script>'')) in_raw_text) =
    fst (scan_raw_text \<lparr>raw_text_mode = 2\<rparr> (lexer_at (cps ''p{}'' @ cps ''</script>'')) in_raw_text)"
    by (rule conjunct1)
  with b1 have b2:
    "fst (scan_raw_text \<lparr>raw_text_mode = 2\<rparr> (lexer_at (cps ''p{}'' @ cps ''</script>'')) in_raw_text) = True"
    by simp
  from h a1 a2 b1 b2 show ?thesis by simp
qed

subsection \<open>Declining consumes nothing\<close>

text \<open>
  C8. When a scan declines, it has marked no token end, or it has marked exactly one, at
  the position where the scan started; the result symbol and the scanner state are as
  before. When a scan reports a token, the symbol is one of the two raw-text kinds and
  the token end lies beyond the start.
\<close>

theorem decline_marks_only_start:
  "(tree_sitter_parsley_external_scanner_scan payload lexer valid_symbols = (False, payload', lexer') \<longrightarrow>
      payload' = payload \<and> result_symbol lexer' = result_symbol lexer \<and>
      (marked lexer' = marked lexer \<or> marked lexer' = position lexer # marked lexer)) \<and>
   (tree_sitter_parsley_external_scanner_scan payload lexer valid_symbols = (True, payload', lexer') \<longrightarrow>
      payload' = payload \<and>
      (result_symbol lexer' = symbol RAW_TEXT \<or>
       result_symbol lexer' = symbol RAW_TEXT_INTERPOLATION_START) \<and>
      (\<exists>e. token_end lexer' = Some e \<and> position lexer < e))"
proof (intro conjI impI)
  assume a: "tree_sitter_parsley_external_scanner_scan payload lexer valid_symbols =
    (False, payload', lexer')"
  then have p: "payload' = payload"
    and c: "lexer' = lexer \<or> scan_raw_text_loop False lexer = (False, lexer')"
    by (auto simp: tree_sitter_parsley_external_scanner_scan_def scan_raw_text_def
        split: if_splits prod.splits)
  from p show "payload' = payload" .
  from c loop_declined [of lexer lexer']
  show "result_symbol lexer' = result_symbol lexer" by auto
  from c loop_declined [of lexer lexer']
  show "marked lexer' = marked lexer \<or> marked lexer' = position lexer # marked lexer" by auto
next
  assume a: "tree_sitter_parsley_external_scanner_scan payload lexer valid_symbols =
    (True, payload', lexer')"
  then have p: "payload' = payload" and c: "scan_raw_text_loop False lexer = (True, lexer')"
    by (auto simp: tree_sitter_parsley_external_scanner_scan_def scan_raw_text_def
        split: if_splits prod.splits)
  from p show "payload' = payload" .
  from c show "result_symbol lexer' = symbol RAW_TEXT \<or>
       result_symbol lexer' = symbol RAW_TEXT_INTERPOLATION_START"
    by (rule loop_result_symbol)
  from c show "\<exists>e. token_end lexer' = Some e \<and> position lexer < e"
    by (rule loop_success_token)
qed

theorem decline_marks_only_start_witness:
  "tree_sitter_parsley_external_scanner_scan \<lparr>raw_text_mode = 1\<rparr> (lexer_at (cps ''</style>'')) in_raw_text =
     (False, \<lparr>raw_text_mode = 1\<rparr>,
      \<lparr>ahead = cps ''>'', position = 7, marked = [0], result_symbol = symbol ERROR_SENTINEL\<rparr>) \<and>
   marked (lexer_at (cps ''</style>'')) = [] \<and> position (lexer_at (cps ''</style>'')) = 0 \<and>
   tree_sitter_parsley_external_scanner_scan \<lparr>raw_text_mode = 1\<rparr> (lexer_at (cps ''x'')) in_raw_text =
     (True, \<lparr>raw_text_mode = 1\<rparr>,
      \<lparr>ahead = [], position = 1, marked = [1], result_symbol = symbol RAW_TEXT\<rparr>)"
proof -
  have e: "tree_sitter_parsley_external_scanner_scan \<lparr>raw_text_mode = 1\<rparr> (lexer_at (cps ''</style>'')) in_raw_text =
     (False, \<lparr>raw_text_mode = 1\<rparr>,
      \<lparr>ahead = cps ''>'', position = 7, marked = [0], result_symbol = symbol ERROR_SENTINEL\<rparr>)"
    "tree_sitter_parsley_external_scanner_scan \<lparr>raw_text_mode = 1\<rparr> (lexer_at (cps ''x'')) in_raw_text =
     (True, \<lparr>raw_text_mode = 1\<rparr>,
      \<lparr>ahead = [], position = 1, marked = [1], result_symbol = symbol RAW_TEXT\<rparr>)"
    by code_simp+
  from decline_marks_only_start [of "\<lparr>raw_text_mode = 1\<rparr>" "lexer_at (cps ''</style>'')" in_raw_text
      "\<lparr>raw_text_mode = 1\<rparr>"
      "\<lparr>ahead = cps ''>'', position = 7, marked = [0], result_symbol = symbol ERROR_SENTINEL\<rparr>"]
    decline_marks_only_start [of "\<lparr>raw_text_mode = 1\<rparr>" "lexer_at (cps ''x'')" in_raw_text
      "\<lparr>raw_text_mode = 1\<rparr>"
      "\<lparr>ahead = [], position = 1, marked = [1], result_symbol = symbol RAW_TEXT\<rparr>"] e
  show ?thesis by (simp add: lexer_at_def)
qed

subsection \<open>Tag-like text that is no closing tag\<close>

text \<open>
  C2. The text \<open></SQtyle>\<close> matches none of the three recognised names, yet the scan
  of \<open>a</SQtyle>\<close> reports only \<open>a\<close> and the next scan declines at
  \<open></SQtyle>\<close>, as at a closing tag, where ordinary content would have been
  consumed to the end of input: after \<open>SQ\<close> the lookahead for \<open>style\<close> and
  \<open>script\<close> goes on from the letter after the \<open>Q\<close>. The example of the claim,
  \<open>a</div>b</style>\<close>, is scanned as the claim says.
\<close>

theorem run_on_tag_ends_scan:
  "\<not> closing_tag (cps ''</SQtyle>'') \<and>
   scan_text (cps ''a</SQtyle>'') = (True, symbol RAW_TEXT, cps ''a'', cps ''</SQtyle>'') \<and>
   fst (scan_text (cps ''</SQtyle>'')) = False \<and>
   scan_text (cps ''a</div>b</style>'') = (True, symbol RAW_TEXT, cps ''a</div>b'', cps ''</style>'') \<and>
   fst (scan_text (cps ''</style>'')) = False"
  by code_simp

subsection \<open>Letter case of the closing names\<close>



subsection \<open>What ends a tag name\<close>

text \<open>
  When the closing-tag lookahead returns, the lookahead character is \<open>>\<close>, a space,
  a tab, a line feed or a carriage return. A recognised name followed by one of these
  ends the scan at the \<open><\<close>. When \<open>style\<close> or \<open>script\<close>, in any letter
  case, is followed by anything else or by the end of input, the loop goes on behind the
  name with all of \<open></\<close> and the name as content; so it does for \<open>SQL\<close> where
  the next character is none of \<open>t\<close>, \<open>T\<close>, \<open>c\<close>, \<open>C\<close>.
\<close>

lemma tag_name_end_decides:
  "(close_tag_name hc l = Returned b l' \<longrightarrow> tag_terminator (lookahead l')) \<and>
   (ahead l = cps ''</'' @ name @ rest \<and> recognised_name name \<and> terminated rest \<longrightarrow>
      (\<exists>l'. scan_raw_text_loop hc l = (hc, l') \<and> token_end l' = Some (position l))) \<and>
   (ahead l = cps ''</'' @ name @ rest \<and> (folds_to ''style'' name \<or> folds_to ''script'' name) \<and>
      \<not> terminated rest \<longrightarrow>
      scan_raw_text_loop hc l =
        scan_raw_text_loop True (l\<lparr>ahead := rest, position := position l + (2 + length name),
           marked := (position l + (2 + length name)) # position l # marked l\<rparr>)) \<and>
   (ahead l = cps ''</'' @ cps ''SQL'' @ rest \<and> \<not> terminated rest \<and>
      (rest = [] \<or> hd rest \<notin> {cp CHR ''t'', cp CHR ''T'', cp CHR ''c'', cp CHR ''C''}) \<longrightarrow>
      scan_raw_text_loop hc l =
        scan_raw_text_loop True (l\<lparr>ahead := rest, position := position l + 5,
           marked := (position l + 5) # position l # marked l\<rparr>))"
proof (intro conjI impI)
  assume r: "close_tag_name hc l = Returned b l'"
  show "tag_terminator (lookahead l')"
  proof (cases hc l rule: close_tag_name_cases)
    case (returned l0)
    with r show ?thesis
      by (auto simp: found_close_tag_def tag_name_end_def tag_terminator_def lookahead_def
          split: if_splits)
  next
    case (fell l2)
    with r show ?thesis by simp
  qed
next
  assume "ahead l = cps ''</'' @ name @ rest \<and> recognised_name name \<and> terminated rest"
  then show "\<exists>l'. scan_raw_text_loop hc l = (hc, l') \<and> token_end l' = Some (position l)"
    using loop_recognised by blast
next
  assume h: "ahead l = cps ''</'' @ name @ rest \<and>
    (folds_to ''style'' name \<or> folds_to ''script'' name) \<and> \<not> terminated rest"
  show "scan_raw_text_loop hc l =
        scan_raw_text_loop True (l\<lparr>ahead := rest, position := position l + (2 + length name),
           marked := (position l + (2 + length name)) # position l # marked l\<rparr>)"
  proof (rule loop_name_no_end)
    show "ahead l = 60 # 47 # name @ rest" using h by (simp add: cps_def)
  next
    fix l1 :: TSLexer assume "ahead l1 = name @ rest"
    with h have "name_prefix True (cps ''style'') (ahead l1) = Some rest \<or>
              name_prefix True (cps ''script'') (ahead l1) = Some rest"
      by (auto simp: folds_to_def name_prefix_append)
    with h show "\<exists>l'. close_tag_name hc l1 = Fell l' \<and> ahead l' = rest"
      by (intro name_no_end) simp_all
  qed
next
  assume h: "ahead l = cps ''</'' @ cps ''SQL'' @ rest \<and> \<not> terminated rest \<and>
      (rest = [] \<or> hd rest \<notin> {cp CHR ''t'', cp CHR ''T'', cp CHR ''c'', cp CHR ''C''})"
  have "scan_raw_text_loop hc l =
        scan_raw_text_loop True (l\<lparr>ahead := rest, position := position l + (2 + length (cps ''SQL'')),
           marked := (position l + (2 + length (cps ''SQL''))) # position l # marked l\<rparr>)"
  proof (rule loop_name_no_end)
    show "ahead l = 60 # 47 # cps ''SQL'' @ rest" using h by (simp add: cps_def)
  next
    fix l1 :: TSLexer assume "ahead l1 = cps ''SQL'' @ rest"
    then have "name_prefix False (cps ''SQL'') (ahead l1) = Some rest"
      by (simp add: name_prefix_append name_prefix_exact)
    with h show "\<exists>l'. close_tag_name hc l1 = Fell l' \<and> ahead l' = rest"
      by (intro SQL_no_end) auto
  qed
  then show "scan_raw_text_loop hc l =
        scan_raw_text_loop True (l\<lparr>ahead := rest, position := position l + 5,
           marked := (position l + 5) # position l # marked l\<rparr>)"
    by (simp add: cps_def)
qed

text \<open>
  C4. The property fails on the code for \<open>SQL\<close> followed by the rest of
  \<open>style\<close> or \<open>script\<close>. In \<open>a</SQLtyle>\<close> the recognised name
  \<open>SQL\<close> is followed by \<open>t\<close>, which does not end a tag name, so the text
  \<open></SQLtyle>\<close> would be ordinary content. The scan reports \<open>a\<close> only, and
  the next scan declines at \<open></SQLtyle>\<close> as at a closing tag.
\<close>

theorem name_end_missing_after_SQL:
  "recognised_name (cps ''SQL'') \<and> \<not> tag_terminator (cp CHR ''t'') \<and>
   \<not> closing_tag (cps ''</SQLtyle>'') \<and>
   scan_text (cps ''a</SQLtyle>'') = (True, symbol RAW_TEXT, cps ''a'', cps ''</SQLtyle>'') \<and>
   fst (scan_text (cps ''</SQLtyle>'')) = False"
  by code_simp

end
